theory Spec2Isabelle
  imports Main
begin

section \<open>Data model (types.ts)\<close>

text \<open>
  A JavaScript string is modelled as a \<^typ>\<open>string\<close>, one \<^typ>\<open>char\<close> per code unit
  (code units \<open>0x00\<close> to \<open>0xFF\<close>).  An optional boolean field
  (\<^verbatim>\<open>uncommitted?: boolean\<close>) is a \<^typ>\<open>bool option\<close>: \<open>None\<close> is
  \<^verbatim>\<open>undefined\<close> (also: the property is absent), so the strict comparison
  \<^verbatim>\<open>!==\<close> of two such fields is inequality of the options.
\<close>

datatype ChangeType = Added | Modified | Deleted

record Worktree =
  path :: string
  branch :: string
  isMainWorktree :: bool

record TrackedFile =
  relativePath :: string
  worktreeName :: string
  branch :: string
  changeType :: ChangeType
  uncommitted :: "bool option"
  hasUncommittedOnTop :: "bool option"

text \<open>Truthiness of an optional boolean: \<^verbatim>\<open>undefined\<close> and \<^verbatim>\<open>false\<close> are falsy.\<close>

definition truthy :: "bool option \<Rightarrow> bool" where
  "truthy b = (b = Some True)"

section \<open>JavaScript containers and strings\<close>

subsection \<open>\<^verbatim>\<open>Map<string, V>\<close>: entries in insertion order, keys distinct\<close>

type_synonym 'v jsmap = "(string \<times> 'v) list"

definition Map_get :: "'v jsmap \<Rightarrow> string \<Rightarrow> 'v option" where
  "Map_get m k = map_of m k"

definition Map_has :: "'v jsmap \<Rightarrow> string \<Rightarrow> bool" where
  "Map_has m k = (k \<in> set (map fst m))"

definition Map_keys :: "'v jsmap \<Rightarrow> string list" where
  "Map_keys m = map fst m"

text \<open>\<^verbatim>\<open>Map.prototype.set\<close>: an existing key keeps its place, a new key goes last.\<close>

fun Map_set :: "string \<Rightarrow> 'v \<Rightarrow> 'v jsmap \<Rightarrow> 'v jsmap" where
  "Map_set k v [] = [(k, v)]"
| "Map_set k v ((k', v') # m) = (if k' = k then (k, v) # m else (k', v') # Map_set k v m)"

definition wf_Map :: "'v jsmap \<Rightarrow> bool" where
  "wf_Map m = distinct (map fst m)"

subsection \<open>\<^verbatim>\<open>Set<string>\<close>: elements in insertion order\<close>

definition Set_add :: "string \<Rightarrow> string list \<Rightarrow> string list" where
  "Set_add x s = (if x \<in> set s then s else s @ [x])"

subsection \<open>Arrays\<close>

text \<open>\<^verbatim>\<open>Array.prototype.findIndex\<close>; \<open>None\<close> is the result \<open>-1\<close>.\<close>

fun findIndex :: "('a \<Rightarrow> bool) \<Rightarrow> 'a list \<Rightarrow> nat option" where
  "findIndex P [] = None"
| "findIndex P (x # xs) = (if P x then Some 0 else map_option Suc (findIndex P xs))"

subsection \<open>Strings\<close>

definition TAB :: char where "TAB = CHR 0x09"
definition LF :: char where "LF = CHR 0x0A"
definition CR :: char where "CR = CHR 0x0D"

text \<open>White space and line terminators of ECMAScript, among the code units below \<open>0x100\<close>.\<close>

definition is_js_whitespace :: "char \<Rightarrow> bool" where
  "is_js_whitespace c =
     (c \<in> {CHR 0x09, CHR 0x0A, CHR 0x0B, CHR 0x0C, CHR 0x0D, CHR 0x20, CHR 0xA0})"

definition is_line_terminator :: "char \<Rightarrow> bool" where
  "is_line_terminator c = (c = LF \<or> c = CR)"

definition trim :: "string \<Rightarrow> string" where
  "trim s = rev (dropWhile is_js_whitespace (rev (dropWhile is_js_whitespace s)))"

definition startsWith :: "string \<Rightarrow> string \<Rightarrow> bool" where
  "startsWith s p = (take (length p) s = p)"

text \<open>\<^verbatim>\<open>s.replace(pat, rep)\<close> for a non-empty string pattern: the first occurrence only.\<close>

fun replace_first :: "string \<Rightarrow> string \<Rightarrow> string \<Rightarrow> string" where
  "replace_first pat rep [] = []"
| "replace_first pat rep (c # cs) =
     (if startsWith (c # cs) pat then rep @ drop (length pat) (c # cs)
      else c # replace_first pat rep cs)"

definition cons_first :: "char \<Rightarrow> string list \<Rightarrow> string list" where
  "cons_first c ls = (case ls of [] \<Rightarrow> [[c]] | l # rest \<Rightarrow> (c # l) # rest)"

text \<open>\<^verbatim>\<open>s.split(/\r?\n/)\<close>: the separator is tried at each position from the left.\<close>

fun split_lines :: "string \<Rightarrow> string list" where
  "split_lines [] = [[]]"
| "split_lines [c] = (if c = LF then [[], []] else [[c]])"
| "split_lines (c # d # cs) =
     (if c = CR \<and> d = LF then [] # split_lines cs
      else if c = LF then [] # split_lines (d # cs)
      else cons_first c (split_lines (d # cs)))"

text \<open>The length of a match of \<^verbatim>\<open>/\r?\n\r?\n/\<close> at the start of the string, if any.\<close>

definition block_separator :: "string \<Rightarrow> nat option" where
  "block_separator s =
     (if take 4 s = [CR, LF, CR, LF] then Some 4
      else if take 3 s = [CR, LF, LF] then Some 3
      else if take 3 s = [LF, CR, LF] then Some 3
      else if take 2 s = [LF, LF] then Some 2
      else None)"

text \<open>\<^verbatim>\<open>s.split(/\r?\n\r?\n/)\<close>.\<close>

fun split_blocks :: "string \<Rightarrow> string list" where
  "split_blocks [] = [[]]"
| "split_blocks (c # cs) =
     (case block_separator (c # cs) of
        Some n \<Rightarrow> [] # split_blocks (drop (n - 1) cs)
      | None \<Rightarrow> cons_first c (split_blocks cs))"

definition digit_char :: "nat \<Rightarrow> char" where
  "digit_char d = ''0123456789'' ! d"

text \<open>Number-to-string conversion of a non-negative integer, as the template literal
  \<^verbatim>\<open>`W${count}`\<close> performs it on an array length: the decimal digits.\<close>

fun number_toString :: "nat \<Rightarrow> string" where
  "number_toString n =
     (if n < 10 then [digit_char n]
      else number_toString (n div 10) @ [digit_char (n mod 10)])"

declare number_toString.simps [simp del]

section \<open>JavaScript objects as written to and read from JSON\<close>

text \<open>
  An object with string keys, as \<^verbatim>\<open>Object.fromEntries\<close> and \<^verbatim>\<open>JSON.parse\<close> build it
  and as \<^verbatim>\<open>Object.entries\<close> and \<^verbatim>\<open>JSON.stringify\<close> enumerate it: the list of its
  properties in the order of the language, the keys that are array indices (canonical
  decimal numerals below \<open>2^32 - 1\<close>) first, in ascending numeric order, then the other
  keys in the order of their creation.
\<close>

type_synonym 'v jsobject = "(string \<times> 'v) list"

definition digit_value :: "char \<Rightarrow> nat" where
  "digit_value c = length (takeWhile (\<lambda>d. d \<noteq> c) ''0123456789'')"

definition array_index_value :: "string \<Rightarrow> nat" where
  "array_index_value s = foldl (\<lambda>n c. 10 * n + digit_value c) 0 s"

definition is_array_index :: "string \<Rightarrow> bool" where
  "is_array_index s =
     (s \<noteq> [] \<and> list_all (\<lambda>c. c \<in> set ''0123456789'') s \<and>
      (s = ''0'' \<or> hd s \<noteq> CHR ''0'') \<and> array_index_value s < 4294967295)"

text \<open>A new array-index key goes before the first property that is not an array index or
  has a greater index.\<close>

fun insert_index_key :: "string \<Rightarrow> 'v \<Rightarrow> 'v jsobject \<Rightarrow> 'v jsobject" where
  "insert_index_key k v [] = [(k, v)]"
| "insert_index_key k v ((k', v') # obj) =
     (if is_array_index k' \<and> array_index_value k' < array_index_value k
      then (k', v') # insert_index_key k v obj
      else (k, v) # (k', v') # obj)"

text \<open>Creation of a data property: the value of an existing key is replaced in place.\<close>

definition object_set :: "string \<Rightarrow> 'v \<Rightarrow> 'v jsobject \<Rightarrow> 'v jsobject" where
  "object_set k v obj =
     (if k \<in> set (map fst obj) then Map_set k v obj
      else if is_array_index k then insert_index_key k v obj
      else obj @ [(k, v)])"

definition Object_fromEntries :: "(string \<times> 'v) list \<Rightarrow> 'v jsobject" where
  "Object_fromEntries entries = fold (\<lambda>(k, v) obj. object_set k v obj) entries []"

definition Object_entries :: "'v jsobject \<Rightarrow> (string \<times> 'v) list" where
  "Object_entries obj = obj"

text \<open>\<^verbatim>\<open>new Map(entries)\<close>.\<close>

definition Map_of_entries :: "(string \<times> 'v) list \<Rightarrow> 'v jsmap" where
  "Map_of_entries entries = fold (\<lambda>(k, v) m. Map_set k v m) entries []"

section \<open>Git diff parser (gitDiffParser.ts)\<close>

text \<open>A match of \<^verbatim>\<open>/^([AMDRC])\t(.+)$/\<close> (no flags: \<open>.\<close> excludes line terminators,
  \<open>$\<close> is the end of the string): the two capture groups.\<close>

definition match_diff_line :: "string \<Rightarrow> (char \<times> string) option" where
  "match_diff_line line =
     (case line of
        status # t # filePath \<Rightarrow>
          if status \<in> set ''AMDRC'' \<and> t = TAB \<and> filePath \<noteq> [] \<and>
             list_all (\<lambda>c. \<not> is_line_terminator c) filePath
          then Some (status, filePath) else None
      | _ \<Rightarrow> None)"

text \<open>The \<^verbatim>\<open>switch (status)\<close>, its \<^verbatim>\<open>default\<close> branch included.\<close>

definition changeType_of_status :: "char \<Rightarrow> ChangeType" where
  "changeType_of_status status =
     (if status = CHR ''A'' then Added
      else if status = CHR ''D'' then Deleted
      else Modified)"

text \<open>One iteration of the loop over the lines; \<open>files\<close> is the array pushed to.\<close>

definition parse_line_step ::
  "string \<Rightarrow> string \<Rightarrow> bool \<Rightarrow> string \<Rightarrow> TrackedFile list \<Rightarrow> TrackedFile list" where
  "parse_line_step wtName br uncomm line files =
     (case match_diff_line line of
        Some (status, filePath) \<Rightarrow>
          files @ [\<lparr>relativePath = filePath, worktreeName = wtName, branch = br,
                    changeType = changeType_of_status status,
                    uncommitted = (if uncomm then Some True else None),
                    hasUncommittedOnTop = None\<rparr>]
      | None \<Rightarrow> files)"

definition parseGitDiffOutput ::
  "string \<Rightarrow> string \<Rightarrow> string \<Rightarrow> bool \<Rightarrow> TrackedFile list" where
  "parseGitDiffOutput output wtName br uncomm =
     (let lines = filter (\<lambda>line. length line > 0) (split_lines (trim output))
      in fold (parse_line_step wtName br uncomm) lines [])"

section \<open>File aggregation (fileAggregation.ts)\<close>

text \<open>The body of the inner loop of \<^verbatim>\<open>aggregateFiles\<close>: the bucket of the file's path
  is fetched (or a new empty array), updated and stored back.\<close>

definition bucket_step :: "TrackedFile \<Rightarrow> TrackedFile list \<Rightarrow> TrackedFile list" where
  "bucket_step file existing =
     (case findIndex (\<lambda>f. worktreeName f = worktreeName file) existing of
        Some existingIndex \<Rightarrow>
          if \<not> truthy (uncommitted file) then existing[existingIndex := file] else existing
      | None \<Rightarrow> existing @ [file])"

definition aggregate_step ::
  "TrackedFile \<Rightarrow> TrackedFile list jsmap \<Rightarrow> TrackedFile list jsmap" where
  "aggregate_step file trackedFiles =
     (let existing = (case Map_get trackedFiles (relativePath file) of
                        Some e \<Rightarrow> e | None \<Rightarrow> [])
      in Map_set (relativePath file) (bucket_step file existing) trackedFiles)"

definition aggregateFiles :: "TrackedFile list list \<Rightarrow> TrackedFile list jsmap" where
  "aggregateFiles fileGroups =
     fold (\<lambda>files trackedFiles. fold aggregate_step files trackedFiles) fileGroups []"

text \<open>\<^verbatim>\<open>trackedFilesEqual\<close>: the loop over the index \<open>i\<close>, entered when the lengths
  agree.\<close>

definition record_differs :: "TrackedFile \<Rightarrow> TrackedFile \<Rightarrow> bool" where
  "record_differs x y =
     (worktreeName x \<noteq> worktreeName y \<or>
      changeType x \<noteq> changeType y \<or>
      uncommitted x \<noteq> uncommitted y \<or>
      hasUncommittedOnTop x \<noteq> hasUncommittedOnTop y)"

function trackedFilesEqual_from :: "nat \<Rightarrow> TrackedFile list \<Rightarrow> TrackedFile list \<Rightarrow> bool" where
  "trackedFilesEqual_from i a b =
     (if i < length a then
        (if record_differs (a ! i) (b ! i) then False
         else trackedFilesEqual_from (Suc i) a b)
      else True)"
  by pat_completeness auto
termination
  by (relation "measure (\<lambda>(i, a, b). length a - i)") auto

declare trackedFilesEqual_from.simps [simp del]

definition trackedFilesEqual :: "TrackedFile list \<Rightarrow> TrackedFile list \<Rightarrow> bool" where
  "trackedFilesEqual a b =
     (if length a \<noteq> length b then False else trackedFilesEqual_from 0 a b)"

definition getChangedPaths ::
  "TrackedFile list jsmap \<Rightarrow> TrackedFile list jsmap \<Rightarrow> string list" where
  "getChangedPaths oldState newState =
     (let changed =
            fold (\<lambda>(filePath, newFiles) changed.
                    case Map_get oldState filePath of
                      None \<Rightarrow> Set_add filePath changed
                    | Some oldFiles \<Rightarrow>
                        if \<not> trackedFilesEqual oldFiles newFiles
                        then Set_add filePath changed else changed)
                 newState []
      in fold (\<lambda>filePath changed.
                 if \<not> Map_has newState filePath then Set_add filePath changed else changed)
              (Map_keys oldState) changed)"

text \<open>The test of the first loop of \<^verbatim>\<open>getChangedPaths\<close> on an entry of the new map:
  no old bucket, or an old bucket that is not equal to the new one.\<close>

definition changed_entry :: "TrackedFile list jsmap \<Rightarrow> string \<times> TrackedFile list \<Rightarrow> bool" where
  "changed_entry oldState e =
     (case Map_get oldState (fst e) of None \<Rightarrow> True
      | Some oldFiles \<Rightarrow> \<not> trackedFilesEqual oldFiles (snd e))"

section \<open>Worktree list parser (worktreeParser.ts)\<close>

text \<open>The loop over the lines of one block; the state is
  \<open>(worktreePath, branch, isMainWorktree)\<close>.\<close>

definition block_line_step :: "string \<Rightarrow> string \<times> string \<times> bool \<Rightarrow> string \<times> string \<times> bool" where
  "block_line_step line st =
     (case st of (worktreePath, br, isMain) \<Rightarrow>
        if startsWith line ''worktree '' then (drop 9 line, br, isMain)
        else if startsWith line ''branch ''
          then (worktreePath, replace_first ''refs/heads/'' [] (drop 7 line), isMain)
        else if line = ''bare'' then (worktreePath, br, True)
        else (worktreePath, br, isMain))"

text \<open>The body of the loop over the blocks.  \<^verbatim>\<open>path.resolve\<close> of Node.js depends on the
  platform and on the current directory; it is the parameter \<open>resolve\<close>.\<close>

definition parse_block_step ::
  "(string \<Rightarrow> string) \<Rightarrow> string \<Rightarrow> string \<Rightarrow> Worktree list \<Rightarrow> Worktree list" where
  "parse_block_step resolve workspaceRoot block worktrees =
     (if trim block = [] then worktrees
      else
        (case fold block_line_step (split_lines block) ([], [], False) of
           (worktreePath, br, isMain) \<Rightarrow>
             if worktreePath = [] then worktrees
             else worktrees @
               [\<lparr>path = worktreePath,
                 branch = (if br = [] then ''HEAD'' else br),
                 isMainWorktree = (isMain \<or> resolve worktreePath = resolve workspaceRoot)\<rparr>]))"

definition parseWorktreeList ::
  "(string \<Rightarrow> string) \<Rightarrow> string \<Rightarrow> string \<Rightarrow> Worktree list" where
  "parseWorktreeList resolve output workspaceRoot =
     fold (parse_block_step resolve workspaceRoot) (split_blocks (trim output)) []"

section \<open>Badge generator (badgeGenerator.ts)\<close>

text \<open>\<^verbatim>\<open>generateBadge\<close>: \<open>None\<close> is the \<^verbatim>\<open>undefined\<close> result.\<close>

definition generateBadge :: "TrackedFile list \<Rightarrow> bool \<Rightarrow> string option" where
  "generateBadge worktrees userModified =
     (let count = length worktrees in
      if count = 0 then None
      else if userModified then Some ''!W''
      else if count > 1 then Some (''W'' @ number_toString count)
      else
        (let hasUncommitted =
               list_ex (\<lambda>w. truthy (uncommitted w) \<or> truthy (hasUncommittedOnTop w)) worktrees
         in if hasUncommitted then Some ''W*'' else Some ''W''))"

section \<open>Worktree file tracker service (worktreeFileTracker.ts)\<close>

definition STATE_VERSION :: string where
  "STATE_VERSION = ''1.0''"

text \<open>The snapshot as its JSON text gives it: the members of \<open>files\<close> in the order of
  the text; \<open>None\<close> when \<open>files\<close> is missing or falsy.\<close>

record TrackedFilesState =
  version :: string
  lastUpdated :: string
  files :: "(string \<times> TrackedFile list) list option"

text \<open>The state file: absent; present but reading or parsing it throws; present with a
  snapshot.\<close>

datatype state_file = NoFile | Unreadable | Snapshot TrackedFilesState

text \<open>
  The service: its three private fields, and what it acts on and emits, namely the state
  file, the warnings shown to the user (the branch name of each, in order) and the
  changed-path sets fired on \<open>onStateChanged\<close>.
\<close>

record tracker =
  trackedFiles :: "TrackedFile list jsmap"
  invalidBranchWarningShown :: "string option"
  scanningPaused :: bool
  stateFile :: state_file
  warningsShown :: "string list"
  stateChangedFired :: "string list list"

text \<open>A service as its constructor leaves it, on a given state file.\<close>

definition new_tracker :: "state_file \<Rightarrow> tracker" where
  "new_tracker file =
     \<lparr>trackedFiles = [], invalidBranchWarningShown = None, scanningPaused = False,
      stateFile = file, warningsShown = [], stateChangedFired = []\<rparr>"

definition resetScanningState :: "tracker \<Rightarrow> tracker" where
  "resetScanningState t = t\<lparr>scanningPaused := False, invalidBranchWarningShown := None\<rparr>"

definition loadState :: "tracker \<Rightarrow> tracker" where
  "loadState t =
     (case stateFile t of
        NoFile \<Rightarrow> t
      | Unreadable \<Rightarrow> t\<lparr>trackedFiles := []\<rparr>
      | Snapshot state \<Rightarrow>
          (case files state of
             Some members \<Rightarrow>
               if version state = STATE_VERSION
               then t\<lparr>trackedFiles :=
                        Map_of_entries (Object_entries (Object_fromEntries members))\<rparr>
               else t
           | None \<Rightarrow> t))"

text \<open>\<^verbatim>\<open>saveState\<close>; \<open>now\<close> is the time stamp, \<open>writable\<close> tells whether creating the
  directory and writing the file succeed (a failure is logged and nothing is written).\<close>

definition saveState :: "string \<Rightarrow> bool \<Rightarrow> tracker \<Rightarrow> tracker" where
  "saveState now writable t =
     (if writable
      then t\<lparr>stateFile := Snapshot
               \<lparr>version = STATE_VERSION, lastUpdated = now,
                files = Some (Object_entries (Object_fromEntries (trackedFiles t)))\<rparr>\<rparr>
      else t)"

subsection \<open>Comparison branch\<close>

text \<open>What the git commands and the configuration answer at the time of one resolution:
  the setting \<open>comparisonBranch\<close>; the output of
  \<^verbatim>\<open>git rev-parse --abbrev-ref HEAD\<close> and of
  \<^verbatim>\<open>git symbolic-ref refs/remotes/origin/HEAD\<close> (\<open>None\<close>: the command fails); whether
  \<^verbatim>\<open>git rev-parse --verify\<close> succeeds on a name.\<close>

record git_env =
  comparisonBranchSetting :: string
  headAbbrevRef :: "string option"
  originHead :: "string option"
  refExists :: "string \<Rightarrow> bool"

definition getMainBranch :: "git_env \<Rightarrow> string" where
  "getMainBranch env =
     (let fallback = (if refExists env ''main'' then ''main'' else ''master'') in
      case originHead env of
        Some stdout \<Rightarrow>
          (let trimmed = trim stdout;
               br = (if startsWith trimmed ''refs/remotes/origin/''
                     then drop (length ''refs/remotes/origin/'') trimmed else trimmed)
           in if br \<noteq> [] then br else fallback)
      | None \<Rightarrow> fallback)"

definition getCurrentBranch :: "git_env \<Rightarrow> string" where
  "getCurrentBranch env =
     (case headAbbrevRef env of Some stdout \<Rightarrow> trim stdout | None \<Rightarrow> getMainBranch env)"

definition branchExists :: "git_env \<Rightarrow> string \<Rightarrow> bool" where
  "branchExists env branchName = refExists env branchName"

text \<open>The first part of \<^verbatim>\<open>getComparisonBranch\<close>: the name that is then validated.\<close>

definition resolvedBranch :: "git_env \<Rightarrow> string" where
  "resolvedBranch env =
     (let comparisonBranch = comparisonBranchSetting env in
      if comparisonBranch = ''current'' \<or> comparisonBranch = [] then getCurrentBranch env
      else if comparisonBranch = ''main'' then getMainBranch env
      else comparisonBranch)"

definition getComparisonBranch :: "git_env \<Rightarrow> tracker \<Rightarrow> string option \<times> tracker" where
  "getComparisonBranch env t =
     (let resolved = resolvedBranch env in
      if \<not> branchExists env resolved then
        (let t1 = t\<lparr>scanningPaused := True\<rparr>;
             t2 = (if invalidBranchWarningShown t1 \<noteq> Some resolved
                   then t1\<lparr>invalidBranchWarningShown := Some resolved,
                           warningsShown := warningsShown t1 @ [resolved]\<rparr>
                   else t1)
         in (None, t2))
      else (Some resolved, t\<lparr>scanningPaused := False, invalidBranchWarningShown := None\<rparr>))"

subsection \<open>Merging the uncommitted files into the committed ones\<close>

text \<open>
  \<^verbatim>\<open>new Map(allFiles.map(f => [f.relativePath, f]))\<close>.  The map holds references to
  the record objects of \<open>allFiles\<close>; a reference is modelled as the index of the object in
  \<open>allFiles\<close> (the records of \<open>allFiles\<close> are separate objects, one per parsed
  line).  A later entry with the same path overwrites the earlier one.
\<close>

definition committedPathsMap :: "TrackedFile list \<Rightarrow> nat jsmap" where
  "committedPathsMap allFiles =
     fold (\<lambda>(i, f) m. Map_set (relativePath f) i m) (enumerate 0 allFiles) []"

text \<open>The loop over \<^verbatim>\<open>[...uncommittedFiles, ...stagedFiles, ...untrackedFiles]\<close>, with
  the set \<open>seenUncommittedPaths\<close> and the array \<open>allFiles\<close> as its state.  The assignment
  \<^verbatim>\<open>existingCommitted.hasUncommittedOnTop = true\<close> changes the object that both the
  map and \<open>allFiles\<close> refer to.\<close>

fun merge_loop ::
  "nat jsmap \<Rightarrow> TrackedFile list \<Rightarrow> string set \<Rightarrow> TrackedFile list \<Rightarrow> TrackedFile list" where
  "merge_loop committedPaths [] seenUncommittedPaths allFiles = allFiles"
| "merge_loop committedPaths (file # rest) seenUncommittedPaths allFiles =
     (if relativePath file \<in> seenUncommittedPaths
      then merge_loop committedPaths rest seenUncommittedPaths allFiles
      else
        (case Map_get committedPaths (relativePath file) of
           Some existingCommitted \<Rightarrow>
             merge_loop committedPaths rest
               (insert (relativePath file) seenUncommittedPaths)
               (allFiles[existingCommitted :=
                  (allFiles ! existingCommitted)\<lparr>hasUncommittedOnTop := Some True\<rparr>])
         | None \<Rightarrow>
             merge_loop committedPaths rest
               (insert (relativePath file) seenUncommittedPaths)
               (allFiles @ [file])))"

definition mergeUncommitted ::
  "TrackedFile list \<Rightarrow> TrackedFile list \<Rightarrow> TrackedFile list \<Rightarrow> TrackedFile list \<Rightarrow>
     TrackedFile list" where
  "mergeUncommitted allFiles uncommittedFiles stagedFiles untrackedFiles =
     merge_loop (committedPathsMap allFiles)
       (uncommittedFiles @ stagedFiles @ untrackedFiles) {} allFiles"

subsection \<open>Scanning\<close>

text \<open>What one scan of a worktree observes: the branch resolution, the setting
  \<open>trackUncommittedChanges\<close>, and the output of the four git commands run in the worktree
  (\<open>None\<close>: the command fails), the first as a function of the comparison branch.\<close>

record scan_env =
  git :: git_env
  trackUncommittedChanges :: bool
  committedDiff :: "string \<Rightarrow> string option"
  uncommittedDiff :: "string option"
  stagedDiff :: "string option"
  untrackedOutput :: "string option"

definition untrackedFiles :: "string \<Rightarrow> string \<Rightarrow> string \<Rightarrow> TrackedFile list" where
  "untrackedFiles output wtName br =
     map (\<lambda>filePath.
            \<lparr>relativePath = filePath, worktreeName = wtName, branch = br,
             changeType = Added, uncommitted = Some True, hasUncommittedOnTop = None\<rparr>)
         (filter (\<lambda>l. l \<noteq> []) (split_lines (trim output)))"

text \<open>\<^verbatim>\<open>scanWorktree\<close>.  A failing command throws into the \<^verbatim>\<open>catch\<close>, which
  returns \<open>allFiles\<close> as it is then.  The worktree path is the directory the commands run
  in; their outcome is in \<open>env\<close>.\<close>

definition scanWorktree ::
  "scan_env \<Rightarrow> string \<Rightarrow> string \<Rightarrow> string \<Rightarrow> tracker \<Rightarrow> TrackedFile list \<times> tracker" where
  "scanWorktree env worktreePath wtName br t =
     (case getComparisonBranch (git env) t of
        (None, t') \<Rightarrow> ([], t')
      | (Some comparisonBranch, t') \<Rightarrow>
          (case committedDiff env comparisonBranch of
             None \<Rightarrow> ([], t')
           | Some committed \<Rightarrow>
               (let allFiles = parseGitDiffOutput committed wtName br False in
                if trackUncommittedChanges env then
                  (case (uncommittedDiff env, stagedDiff env, untrackedOutput env) of
                     (Some uncommittedOut, Some stagedOut, Some untrackedOut) \<Rightarrow>
                       (mergeUncommitted allFiles
                          (parseGitDiffOutput uncommittedOut wtName br True)
                          (parseGitDiffOutput stagedOut wtName br True)
                          (untrackedFiles untrackedOut wtName br), t')
                   | _ \<Rightarrow> (allFiles, t'))
                else (allFiles, t'))))"

text \<open>One iteration of the loop over the agent worktrees in \<^verbatim>\<open>scanAllWorktrees\<close>; the
  state is the new map and the service.  \<^verbatim>\<open>path.basename\<close> is the parameter
  \<open>basename\<close>.\<close>

definition scan_step ::
  "(string \<Rightarrow> string) \<Rightarrow> Worktree \<times> scan_env \<Rightarrow> TrackedFile list jsmap \<times> tracker \<Rightarrow>
     TrackedFile list jsmap \<times> tracker" where
  "scan_step basename we st =
     (case (we, st) of ((worktree, env), (newTrackedFiles, t)) \<Rightarrow>
        (case scanWorktree env (path worktree) (basename (path worktree))
                (Worktree.branch worktree) t of
           (scanned, t') \<Rightarrow> (fold aggregate_step scanned newTrackedFiles, t')))"

text \<open>\<^verbatim>\<open>scanAllWorktrees\<close>.  Each worktree comes with what its scan observes; \<open>enabled\<close> is
  the setting \<open>enableFileDecorations\<close>.\<close>

definition scanAllWorktrees ::
  "(string \<Rightarrow> string) \<Rightarrow> bool \<Rightarrow> string \<Rightarrow> bool \<Rightarrow> (Worktree \<times> scan_env) list \<Rightarrow> tracker \<Rightarrow>
     tracker" where
  "scanAllWorktrees basename enabled now writable worktrees t =
     (if scanningPaused t then t
      else if \<not> enabled then t
      else
        (let agentWorktrees = filter (\<lambda>(wt, env). \<not> isMainWorktree wt) worktrees in
         case fold (scan_step basename) agentWorktrees ([], t) of
           (newTrackedFiles, t1) \<Rightarrow>
             (let changedPaths = getChangedPaths (trackedFiles t1) newTrackedFiles;
                  t2 = saveState now writable (t1\<lparr>trackedFiles := newTrackedFiles\<rparr>)
              in if changedPaths \<noteq> []
                 then t2\<lparr>stateChangedFired := stateChangedFired t2 @ [changedPaths]\<rparr>
                 else t2)))"

section \<open>The merge of the scanner as the specification words it\<close>

text \<open>De-duplication by path on first occurrence: a record is kept when no earlier record
  of the list has its path.\<close>

function spec_dedup_by_path :: "TrackedFile list \<Rightarrow> TrackedFile list" where
  "spec_dedup_by_path [] = []"
| "spec_dedup_by_path (u # us) =
     u # spec_dedup_by_path (filter (\<lambda>v. relativePath v \<noteq> relativePath u) us)"
  by pat_completeness auto
termination
  by (relation "measure length") (auto simp: less_Suc_eq_le)

text \<open>Marking the baseline: the record of an uncommitted path gets
  \<open>hasUncommittedOnTop = true\<close>.  Should the baseline list a path more than once, the
  record marked is the last one of that path.\<close>

fun spec_mark_baseline :: "string set \<Rightarrow> TrackedFile list \<Rightarrow> TrackedFile list" where
  "spec_mark_baseline uncommittedPaths [] = []"
| "spec_mark_baseline uncommittedPaths (f # fs) =
     (if relativePath f \<in> uncommittedPaths \<and> relativePath f \<notin> relativePath ` set fs
      then f\<lparr>hasUncommittedOnTop := Some True\<rparr> else f)
     # spec_mark_baseline uncommittedPaths fs"

section \<open>Decimal numerals as the specification reads them\<close>

text \<open>The badge \<open>W{N}\<close> of the specification shows the record count \<open>N\<close>.  A decimal
  numeral is a non-empty string of the digits \<open>0\<close> to \<open>9\<close> with no leading zero (the
  numeral \<open>0\<close> apart), and it denotes the number obtained by reading its digits from the
  left, each digit by its character code.\<close>

definition is_decimal_numeral :: "string \<Rightarrow> bool" where
  "is_decimal_numeral s =
     (s \<noteq> [] \<and> list_all (\<lambda>c. c \<in> set ''0123456789'') s \<and>
      (s = ''0'' \<or> hd s \<noteq> CHR ''0''))"

definition decimal_value :: "string \<Rightarrow> nat" where
  "decimal_value s = foldl (\<lambda>n c. 10 * n + (of_char c - 48)) 0 s"

section \<open>The path functions of Node.js on a POSIX system\<close>

text \<open>For the evaluation of examples: \<^verbatim>\<open>path.resolve(p)\<close> of Node.js on a POSIX system
  whose current directory is the absolute path \<open>cwd\<close>.  The segments between slashes are
  normalized (an empty segment and \<open>.\<close> are dropped, \<open>..\<close> removes the segment before it)
  and joined again behind a leading slash.\<close>

fun split_slash :: "string \<Rightarrow> string list" where
  "split_slash [] = [[]]"
| "split_slash (c # cs) =
     (if c = CHR ''/'' then [] # split_slash cs else cons_first c (split_slash cs))"

fun normalize_segments :: "string list \<Rightarrow> string list \<Rightarrow> string list" where
  "normalize_segments res [] = res"
| "normalize_segments res (seg # segs) =
     (if seg = [] \<or> seg = ''.'' then normalize_segments res segs
      else if seg = ''..'' then normalize_segments (butlast res) segs
      else normalize_segments (res @ [seg]) segs)"

fun join_slash :: "string list \<Rightarrow> string" where
  "join_slash [] = []"
| "join_slash [seg] = seg"
| "join_slash (seg # segs) = seg @ ''/'' @ join_slash segs"

definition posix_resolve :: "string \<Rightarrow> string \<Rightarrow> string" where
  "posix_resolve cwd p =
     (let full = (if p = [] then cwd else if hd p = CHR ''/'' then p else cwd @ ''/'' @ p)
      in ''/'' @ join_slash (normalize_segments [] (split_slash full)))"

text \<open>\<^verbatim>\<open>path.basename(p)\<close>: what follows the last slash, trailing slashes apart.\<close>

definition posix_basename :: "string \<Rightarrow> string" where
  "posix_basename p =
     rev (takeWhile (\<lambda>c. c \<noteq> CHR ''/'') (dropWhile (\<lambda>c. c = CHR ''/'') (rev p)))"

section \<open>Example data\<close>

text \<open>Records of the repository's own test suite, used to evaluate the functions.\<close>

definition file_committed :: TrackedFile where
  "file_committed =
     \<lparr>relativePath = ''src/file.ts'', worktreeName = ''agent-1'', branch = ''b1'',
      changeType = Modified, uncommitted = Some False, hasUncommittedOnTop = None\<rparr>"

definition file_uncommitted :: TrackedFile where
  "file_uncommitted =
     \<lparr>relativePath = ''src/file.ts'', worktreeName = ''agent-1'', branch = ''b1'',
      changeType = Modified, uncommitted = Some True, hasUncommittedOnTop = None\<rparr>"

definition file_plain :: "string \<Rightarrow> string \<Rightarrow> TrackedFile" where
  "file_plain wt br =
     \<lparr>relativePath = ''src/file.ts'', worktreeName = wt, branch = br,
      changeType = Modified, uncommitted = None, hasUncommittedOnTop = None\<rparr>"

text \<open>Two agents on one path; the same with the two records swapped; the same with another
  branch and relative path in the first record.\<close>

definition map_two_agents :: "TrackedFile list jsmap" where
  "map_two_agents = [(''src/file.ts'', [file_plain ''agent-1'' ''b1'', file_plain ''agent-2'' ''b2''])]"
definition map_swapped :: "TrackedFile list jsmap" where
  "map_swapped = [(''src/file.ts'', [file_plain ''agent-2'' ''b2'', file_plain ''agent-1'' ''b1''])]"
definition map_renamed :: "TrackedFile list jsmap" where
  "map_renamed = [(''src/file.ts'', [(file_plain ''agent-1'' ''feature/x'')\<lparr>relativePath := ''src/other.ts''\<rparr>, file_plain ''agent-2'' ''b2''])]"

text \<open>A diff listing with a type-change line (status letter \<open>T\<close>) between valid lines.\<close>

definition diff_listing :: string where
  "diff_listing =
     ''A'' @ [TAB] @ ''src/new1.ts'' @ [LF] @ ''M'' @ [TAB] @ ''src/changed.ts'' @ [LF] @
     ''T'' @ [TAB] @ ''src/link'' @ [LF] @ ''D'' @ [TAB] @ ''src/removed.ts'' @ [LF]"

text \<open>A baseline of two committed records, and uncommitted records of the three sources.\<close>

definition baseline_a :: TrackedFile where
  "baseline_a = \<lparr>relativePath = ''a.ts'', worktreeName = ''agent-1'', branch = ''b1'',
     changeType = Modified, uncommitted = None, hasUncommittedOnTop = None\<rparr>"

definition baseline_b :: TrackedFile where
  "baseline_b = \<lparr>relativePath = ''b.ts'', worktreeName = ''agent-1'', branch = ''b1'',
     changeType = Added, uncommitted = None, hasUncommittedOnTop = None\<rparr>"

definition unstaged_a :: TrackedFile where
  "unstaged_a = \<lparr>relativePath = ''a.ts'', worktreeName = ''agent-1'', branch = ''b1'',
     changeType = Modified, uncommitted = Some True, hasUncommittedOnTop = None\<rparr>"

definition unstaged_c :: TrackedFile where
  "unstaged_c = \<lparr>relativePath = ''c.ts'', worktreeName = ''agent-1'', branch = ''b1'',
     changeType = Modified, uncommitted = Some True, hasUncommittedOnTop = None\<rparr>"

definition staged_c :: TrackedFile where
  "staged_c = \<lparr>relativePath = ''c.ts'', worktreeName = ''agent-1'', branch = ''b1'',
     changeType = Added, uncommitted = Some True, hasUncommittedOnTop = None\<rparr>"

definition untracked_d :: TrackedFile where
  "untracked_d = \<lparr>relativePath = ''d.ts'', worktreeName = ''agent-1'', branch = ''b1'',
     changeType = Added, uncommitted = Some True, hasUncommittedOnTop = None\<rparr>"

text \<open>Listings of the repository's tests: a worktree with a detached head; a bare
  repository and one linked worktree.\<close>

definition listing_detached :: string where
  "listing_detached =
     ''worktree /home/user/worktree-agent-1'' @ [LF] @ ''HEAD abc123'' @ [LF] @
     ''detached'' @ [LF]"

definition listing_bare :: string where
  "listing_bare =
     ''worktree /home/user/project.git'' @ [LF] @ ''bare'' @ [LF] @ [LF] @
     ''worktree /home/user/worktree-agent-1'' @ [LF] @ ''HEAD def456'' @ [LF] @
     ''branch refs/heads/feature/task-1'' @ [LF]"

text \<open>A map with array-index keys; a snapshot of another version; the environment of a
  resolution under the setting \<open>main\<close> when the remote's default branch has the given name
  and no branch of the repository exists.\<close>

definition map_index_keys :: "TrackedFile list jsmap" where
  "map_index_keys =
     [(''src/file.ts'', [file_plain ''agent-1'' ''b1'']),
      (''10'', [file_uncommitted]),
      (''2'', [file_committed, file_plain ''agent-2'' ''b2''])]"

definition old_snapshot :: TrackedFilesState where
  "old_snapshot = \<lparr>version = ''0.9'', lastUpdated = ''2025-01-01T00:00:00.000Z'',
     files = Some [(''src/old.ts'', [file_committed])]\<rparr>"

definition origin_head_env :: "string \<Rightarrow> git_env" where
  "origin_head_env name =
     \<lparr>comparisonBranchSetting = ''main'', headAbbrevRef = None,
      originHead = Some (''refs/remotes/origin/'' @ name @ [LF]),
      refExists = (\<lambda>branchName. False)\<rparr>"

text \<open>The same environment once the branch the remote points at exists locally.\<close>

definition origin_head_fetched_env :: "string \<Rightarrow> git_env" where
  "origin_head_fetched_env name =
     \<lparr>comparisonBranchSetting = ''main'', headAbbrevRef = None,
      originHead = Some (''refs/remotes/origin/'' @ name @ [LF]),
      refExists = (\<lambda>branchName. branchName = name)\<rparr>"

text \<open>An agent worktree, and what its scan observes in that environment when every git
  command run in the worktree fails.\<close>

definition agent_worktree :: "string \<Rightarrow> Worktree" where
  "agent_worktree name =
     \<lparr>path = ''/home/user/'' @ name, branch = ''feature/task'', isMainWorktree = False\<rparr>"

definition origin_head_scan :: "string \<Rightarrow> scan_env" where
  "origin_head_scan name =
     \<lparr>git = origin_head_env name, trackUncommittedChanges = True,
      committedDiff = (\<lambda>comparisonBranch. None), uncommittedDiff = None,
      stagedDiff = None, untrackedOutput = None\<rparr>"

text \<open>The scan of an agent worktree once the branch the remote points at exists locally:
  the committed diff against it lists one modified file.\<close>

definition origin_head_fetched_scan :: "string \<Rightarrow> scan_env" where
  "origin_head_fetched_scan name =
     \<lparr>git = origin_head_fetched_env name, trackUncommittedChanges = False,
      committedDiff = (\<lambda>comparisonBranch.
        if comparisonBranch = name then Some (''M'' @ [TAB] @ ''src/changed.ts'' @ [LF]) else None),
      uncommittedDiff = None, stagedDiff = None, untrackedOutput = None\<rparr>"

text \<open>A service after its first scan, of one agent worktree, found the branch \<open>develop\<close>
  that the remote points at missing.\<close>

definition paused_tracker :: tracker where
  "paused_tracker =
     scanAllWorktrees posix_basename True ''2026-01-01T00:00:00.000Z'' True
       [(agent_worktree ''worktree-agent-1'', origin_head_scan ''develop'')]
       (new_tracker NoFile)"

text \<open>Twelve agents with one record each on one path.\<close>

definition twelve_agents :: "TrackedFile list" where
  "twelve_agents = map (\<lambda>c. file_plain (''agent-'' @ [c]) ''b1'') ''abcdefghijkl''"

section \<open>Lemmas on the containers\<close>

lemma Map_get_Map_set: "Map_get (Map_set k v m) k' = (if k' = k then Some v else Map_get m k')"
  by (induction m) (auto simp: Map_get_def)

lemma findIndex_None: "findIndex P xs = None \<longleftrightarrow> (\<forall>x \<in> set xs. \<not> P x)"
  by (induction xs) auto

lemma filter_update_findIndex:
  "findIndex P xs = Some i \<Longrightarrow> P y \<Longrightarrow> filter P (xs[i := y]) = y # tl (filter P xs)"
  by (induction xs arbitrary: i) (auto split: if_splits)

lemma filter_update_findIndex_other:
  "findIndex P xs = Some i \<Longrightarrow> \<not> Q y \<Longrightarrow> (\<And>x. P x \<Longrightarrow> \<not> Q x) \<Longrightarrow>
     filter Q (xs[i := y]) = filter Q xs"
  by (induction xs arbitrary: i) (auto split: if_splits)

lemma findIndex_filter_same:
  "findIndex P xs = Some i \<Longrightarrow> findIndex P (filter P xs) = Some 0"
  by (induction xs arbitrary: i) (auto split: if_splits)

section \<open>Badge derivation\<close>

lemma number_toString_digit: "n < 10 \<Longrightarrow> number_toString n = [digit_char n]"
  by (simp add: number_toString.simps)

text \<open>The conversion of a number to a string gives its decimal numeral, and a decimal
  numeral is the conversion of the number it denotes: the numeral of a number is unique.\<close>

lemma of_char_digit_char: "d < 10 \<Longrightarrow> of_char (digit_char d) = 48 + d"
proof -
  assume "d < 10"
  then have "d \<in> {0,1,2,3,4,5,6,7,8,9}" by auto
  then show ?thesis by (auto simp add: digit_char_def)
qed

lemma digit_char_in: "d < 10 \<Longrightarrow> digit_char d \<in> set ''0123456789''"
proof -
  assume "d < 10"
  then have "d \<in> {0,1,2,3,4,5,6,7,8,9}" by auto
  then show ?thesis by (auto simp add: digit_char_def)
qed

lemma digit_char_of_char:
  "c \<in> set ''0123456789'' \<Longrightarrow> digit_char (of_char c - 48) = c \<and> of_char c - (48::nat) < 10"
  by (auto simp add: digit_char_def)

lemma digit_char_zero: "d < 10 \<Longrightarrow> digit_char d = CHR ''0'' \<longleftrightarrow> d = 0"
proof -
  assume "d < 10"
  then have "d \<in> {0,1,2,3,4,5,6,7,8,9}" by auto
  then show ?thesis by (auto simp add: digit_char_def)
qed

lemma decimal_value_snoc:
  "decimal_value (s @ [c]) = 10 * decimal_value s + (of_char c - 48)"
  by (simp add: decimal_value_def)

lemma number_toString_props:
  "number_toString n \<noteq> [] \<and> list_all (\<lambda>c. c \<in> set ''0123456789'') (number_toString n) \<and>
   decimal_value (number_toString n) = n \<and>
   (hd (number_toString n) = CHR ''0'' \<longrightarrow> n = 0)"
proof (induction n rule: number_toString.induct)
  case (1 n)
  show ?case
  proof (cases "n < 10")
    case True
    then show ?thesis
      by (simp add: number_toString.simps [of n] decimal_value_def of_char_digit_char
          digit_char_in digit_char_zero del: set_simps)
  next
    case False
    have m: "n mod 10 < 10" by simp
    from False 1 have ih: "number_toString (n div 10) \<noteq> []"
      "list_all (\<lambda>c. c \<in> set ''0123456789'') (number_toString (n div 10))"
      "decimal_value (number_toString (n div 10)) = n div 10"
      "hd (number_toString (n div 10)) = CHR ''0'' \<longrightarrow> n div 10 = 0"
      by simp_all
    from False have pos: "n div 10 \<noteq> 0" by simp
    show ?thesis
      using False ih pos m
      by (simp add: number_toString.simps [of n] decimal_value_snoc of_char_digit_char
          digit_char_in del: set_simps)
  qed
qed

lemma number_toString_decimal:
  "is_decimal_numeral (number_toString n) \<and> decimal_value (number_toString n) = n"
proof -
  have "n = 0 \<Longrightarrow> number_toString n = ''0''"
    by (simp add: number_toString.simps digit_char_def)
  then show ?thesis
    using number_toString_props [of n] by (auto simp add: is_decimal_numeral_def)
qed

lemma decimal_value_pos:
  "s \<noteq> [] \<Longrightarrow> hd s \<noteq> CHR ''0'' \<Longrightarrow> list_all (\<lambda>c. c \<in> set ''0123456789'') s \<Longrightarrow>
     0 < decimal_value s"
proof (induction s rule: rev_induct)
  case Nil then show ?case by simp
next
  case (snoc c s)
  show ?case
  proof (cases "s = []")
    case True
    with snoc.prems show ?thesis by (auto simp add: decimal_value_def)
  next
    case False
    with snoc have "0 < decimal_value s" by simp
    then show ?thesis by (simp add: decimal_value_snoc)
  qed
qed

lemma decimal_numeral_unique:
  "is_decimal_numeral s \<Longrightarrow> number_toString (decimal_value s) = s"
proof (induction s rule: rev_induct)
  case Nil then show ?case by (simp add: is_decimal_numeral_def)
next
  case (snoc c s)
  from snoc.prems have c: "c \<in> set ''0123456789''"
    and all: "list_all (\<lambda>c. c \<in> set ''0123456789'') s"
    by (simp_all add: is_decimal_numeral_def del: set_simps)
  note dc = digit_char_of_char [OF c]
  show ?case
  proof (cases "s = []")
    case True
    with dc show ?thesis
      by (simp add: decimal_value_def number_toString.simps)
  next
    case False
    with snoc.prems have hd: "hd s \<noteq> CHR ''0''"
      by (auto simp add: is_decimal_numeral_def)
    with False all have num: "is_decimal_numeral s" by (simp add: is_decimal_numeral_def)
    have pos: "0 < decimal_value s" using decimal_value_pos [OF False hd all] .
    have "number_toString (10 * decimal_value s + (of_char c - 48)) =
          number_toString (decimal_value s) @ [digit_char (of_char c - 48)]"
      using pos dc by (subst number_toString.simps) simp
    then show ?thesis
      using snoc.IH [OF num] dc by (simp add: decimal_value_snoc)
  qed
qed

text \<open>
  Claim C5.  \<^verbatim>\<open>generateBadge\<close> is a function of its two arguments alone and follows
  the stated priority: an empty record list, and no other, gives no badge, whatever
  \<open>userModified\<close> is; otherwise \<open>userModified\<close> gives \<open>!W\<close>; otherwise more than one
  record gives \<open>W\<close> followed by the decimal numeral of the record count, and nothing
  else; otherwise (exactly one record) a record with \<open>uncommitted\<close> or
  \<open>hasUncommittedOnTop\<close> true gives \<open>W*\<close>; otherwise \<open>W\<close>.
\<close>

theorem generateBadge_priority:
  "(generateBadge ws um = None \<longleftrightarrow> ws = []) \<and>
   (\<forall>b. generateBadge ws um = Some b \<longleftrightarrow>
      ws \<noteq> [] \<and>
      (if um then b = ''!W''
       else if 1 < length ws
         then (\<exists>ds. b = CHR ''W'' # ds \<and> is_decimal_numeral ds \<and> decimal_value ds = length ws)
       else if (\<exists>w \<in> set ws. uncommitted w = Some True \<or> hasUncommittedOnTop w = Some True)
         then b = ''W*''
       else b = ''W''))"
proof -
  have "(\<exists>ds. b = CHR ''W'' # ds \<and> is_decimal_numeral ds \<and> decimal_value ds = n) \<longleftrightarrow>
        b = CHR ''W'' # number_toString n" for b n
    using number_toString_decimal [of n] decimal_numeral_unique by auto
  then show ?thesis
    by (auto simp add: generateBadge_def Let_def truthy_def list_ex_iff)
qed

text \<open>The five cases at records of the repository's tests, and twelve records, which give
  \<open>W12\<close>.\<close>

theorem generateBadge_priority_witness:
  "generateBadge [] True = None \<and>
   generateBadge [file_plain ''agent-1'' ''b1''] True = Some ''!W'' \<and>
   generateBadge [file_plain ''agent-1'' ''b1'', file_plain ''agent-2'' ''b2'',
                  file_plain ''agent-3'' ''b3''] False = Some ''W3'' \<and>
   generateBadge twelve_agents False = Some ''W12'' \<and>
   generateBadge [file_uncommitted] False = Some ''W*'' \<and>
   generateBadge [file_plain ''agent-1'' ''b1''] False = Some ''W''"
proof -
  have d3: "is_decimal_numeral ''3'' \<and> decimal_value ''3'' = 3"
    and d12: "is_decimal_numeral ''12'' \<and> decimal_value ''12'' = 12"
    by (simp_all add: is_decimal_numeral_def decimal_value_def)
  have len: "length twelve_agents = 12" by (simp add: twelve_agents_def)
  have ne: "twelve_agents \<noteq> []" using len by auto
  show ?thesis
    using generateBadge_priority [of "[]" True]
      generateBadge_priority [of "[file_plain ''agent-1'' ''b1'']" True]
      generateBadge_priority [of "[file_plain ''agent-1'' ''b1'', file_plain ''agent-2'' ''b2'',
                  file_plain ''agent-3'' ''b3'']" False]
      generateBadge_priority [of twelve_agents False]
      generateBadge_priority [of "[file_uncommitted]" False]
      generateBadge_priority [of "[file_plain ''agent-1'' ''b1'']" False]
      d3 d12 len ne
    by (simp add: file_uncommitted_def file_plain_def)
qed

text \<open>Three records give \<open>W3\<close>, as the repository's test expects, by evaluation.\<close>

lemma generateBadge_three:
  "generateBadge [file_plain ''agent-1'' ''b1'', file_plain ''agent-2'' ''b2'',
                  file_plain ''agent-3'' ''b3''] False = Some ''W3''"
  by (simp add: generateBadge_def number_toString.simps digit_char_def)

text \<open>
  Claim C9, as amended.  For a record list of fewer than ten records, the code returned by
  \<^verbatim>\<open>generateBadge\<close> is absent exactly for the empty list, and is otherwise a string of
  one or two characters; it has one character exactly when it is the plain badge \<open>W\<close>.
\<close>

theorem generateBadge_length:
  "length ws < 10 \<Longrightarrow>
     (generateBadge ws um = None \<longleftrightarrow> ws = []) \<and>
     (\<forall>s. generateBadge ws um = Some s \<longrightarrow>
        (length s = 1 \<or> length s = 2) \<and> (length s = 1 \<longleftrightarrow> s = ''W''))"
  by (auto simp add: generateBadge_def Let_def number_toString_digit split: if_splits)

theorem generateBadge_length_witness:
  "length [file_uncommitted] < 10 \<and>
   generateBadge [file_uncommitted] False = Some ''W*'' \<and> length ''W*'' = 2"
  using generateBadge_length [of "[file_uncommitted]" False]
  by (simp add: generateBadge_def file_uncommitted_def truthy_def)

text \<open>The claim as stated fails on the single committed record of the repository's test
  \<open>returns "W" for single agent\<close>: the code is the one-character string \<open>W\<close>.\<close>

theorem generateBadge_two_chars_counterexample:
  "generateBadge [file_plain ''agent-1'' ''b1''] False = Some ''W'' \<and> length ''W'' \<noteq> 2"
  by (simp add: generateBadge_def file_plain_def truthy_def)

section \<open>Cross-worktree aggregation\<close>

text \<open>The bucket of a path: its array in the map, or the new empty array.\<close>

lemma Map_get_aggregate_step:
  "Map_get (aggregate_step f m) p =
     (if relativePath f = p
      then Some (bucket_step f (case Map_get m p of Some e \<Rightarrow> e | None \<Rightarrow> []))
      else Map_get m p)"
  by (auto simp: aggregate_step_def Map_get_Map_set)

lemma Map_get_fold_aggregate_step:
  "Map_get (fold aggregate_step fs m) p =
     (if \<exists>f \<in> set fs. relativePath f = p
      then Some (fold bucket_step (filter (\<lambda>f. relativePath f = p) fs)
                   (case Map_get m p of Some e \<Rightarrow> e | None \<Rightarrow> []))
      else Map_get m p)"
proof (induction fs arbitrary: m)
  case Nil
  then show ?case by simp
next
  case (Cons f fs)
  show ?case
    by (cases "relativePath f = p") (auto simp: Cons.IH Map_get_aggregate_step)
qed

lemma bucket_step_None:
  "findIndex (\<lambda>g. worktreeName g = worktreeName f) b = None \<Longrightarrow> bucket_step f b = b @ [f]"
  by (simp add: bucket_step_def)

text \<open>A step touches only the records of the incoming record's own worktree.\<close>

lemma filter_bucket_step:
  "filter (\<lambda>g. worktreeName g = w) (bucket_step f b) =
     (if worktreeName f = w then bucket_step f (filter (\<lambda>g. worktreeName g = w) b)
      else filter (\<lambda>g. worktreeName g = w) b)"
proof (cases "findIndex (\<lambda>g. worktreeName g = worktreeName f) b")
  case None
  then have none: "\<forall>x \<in> set b. worktreeName x \<noteq> worktreeName f"
    by (simp add: findIndex_None)
  show ?thesis
  proof (cases "worktreeName f = w")
    case True
    with none have "filter (\<lambda>g. worktreeName g = w) b = []"
      by (auto simp: filter_empty_conv)
    then show ?thesis using True None
      by (simp add: bucket_step_def)
  next
    case False
    then show ?thesis using None by (simp add: bucket_step_None)
  qed
next
  case (Some i)
  show ?thesis
  proof (cases "worktreeName f = w")
    case True
    let ?own = "filter (\<lambda>g. worktreeName g = w) b"
    from Some True have first: "findIndex (\<lambda>g. worktreeName g = w) ?own = Some 0"
      using findIndex_filter_same by fastforce
    from Some True have "filter (\<lambda>g. worktreeName g = w) (b[i := f]) = f # tl ?own"
      using filter_update_findIndex [of "\<lambda>g. worktreeName g = w" b i f] by simp
    moreover have "?own[0 := f] = f # tl ?own"
      using first by (cases ?own) auto
    ultimately show ?thesis using Some True first
      by (simp add: bucket_step_def)
  next
    case False
    with Some show ?thesis
      using filter_update_findIndex_other
        [of "\<lambda>g. worktreeName g = worktreeName f" b i "\<lambda>g. worktreeName g = w" f]
      by (auto simp: bucket_step_def)
  qed
qed

lemma filter_fold_bucket_step:
  "filter (\<lambda>g. worktreeName g = w) (fold bucket_step fs b) =
     fold bucket_step (filter (\<lambda>g. worktreeName g = w) fs) (filter (\<lambda>g. worktreeName g = w) b)"
  by (induction fs arbitrary: b) (simp_all add: filter_bucket_step)

lemma aggregateFiles_concat:
  "aggregateFiles fileGroups = fold aggregate_step (concat fileGroups) []"
proof -
  have "fold (\<lambda>files m. fold aggregate_step files m) gs m = fold aggregate_step (concat gs) m"
    for gs m
    by (induction gs arbitrary: m) simp_all
  then show ?thesis by (simp add: aggregateFiles_def)
qed

text \<open>
  Claim C1.  Let the pair (path \<open>p\<close>, worktree \<open>w\<close>) occur exactly twice among the records
  given to \<^verbatim>\<open>aggregateFiles\<close>, once as the purely-uncommitted record \<open>u\<close> and once as
  the committed record \<open>c\<close>, in either order.  Then the bucket of \<open>p\<close> exists and holds
  exactly one record of worktree \<open>w\<close>, the committed one.
\<close>

theorem aggregateFiles_committed_supersedes:
  assumes "uncommitted u = Some True" and "uncommitted c \<noteq> Some True"
    and "filter (\<lambda>f. relativePath f = p \<and> worktreeName f = w) (concat fileGroups) = [u, c] \<or>
         filter (\<lambda>f. relativePath f = p \<and> worktreeName f = w) (concat fileGroups) = [c, u]"
  shows "\<exists>b. Map_get (aggregateFiles fileGroups) p = Some b \<and>
              filter (\<lambda>f. worktreeName f = w) b = [c]"
proof -
  let ?fs = "concat fileGroups"
  define sel where "sel = filter (\<lambda>f. relativePath f = p \<and> worktreeName f = w) ?fs"
  from assms(3) have order: "sel = [u, c] \<or> sel = [c, u]" by (simp add: sel_def)
  then have "c \<in> set sel" and "u \<in> set sel" by auto
  then have mem: "relativePath c = p" "worktreeName c = w" "worktreeName u = w" "c \<in> set ?fs"
    unfolding sel_def by simp_all
  then have ex: "\<exists>f \<in> set ?fs. relativePath f = p" by blast
  let ?b = "fold bucket_step (filter (\<lambda>f. relativePath f = p) ?fs) []"
  have get: "Map_get (aggregateFiles fileGroups) p = Some ?b"
    unfolding aggregateFiles_concat Map_get_fold_aggregate_step
    using ex by (simp add: Map_get_def)
  have "filter (\<lambda>g. worktreeName g = w) (filter (\<lambda>f. relativePath f = p) ?fs) = sel"
    by (simp add: sel_def conj_commute)
  then have "filter (\<lambda>f. worktreeName f = w) ?b = fold bucket_step sel []"
    by (simp add: filter_fold_bucket_step)
  also have "\<dots> = [c]"
    using order assms(1,2) mem by (auto simp: bucket_step_def truthy_def)
  finally show ?thesis using get by blast
qed

theorem aggregateFiles_committed_supersedes_witness:
  "uncommitted file_uncommitted = Some True \<and> uncommitted file_committed \<noteq> Some True \<and>
   filter (\<lambda>f. relativePath f = ''src/file.ts'' \<and> worktreeName f = ''agent-1'')
     (concat [[file_uncommitted], [file_committed]]) = [file_uncommitted, file_committed] \<and>
   (\<exists>b. Map_get (aggregateFiles [[file_uncommitted], [file_committed]]) ''src/file.ts'' = Some b \<and>
        filter (\<lambda>f. worktreeName f = ''agent-1'') b = [file_committed]) \<and>
   filter (\<lambda>f. relativePath f = ''src/file.ts'' \<and> worktreeName f = ''agent-1'')
     (concat [[file_committed, file_uncommitted]]) = [file_committed, file_uncommitted] \<and>
   (\<exists>b. Map_get (aggregateFiles [[file_committed, file_uncommitted]]) ''src/file.ts'' = Some b \<and>
        filter (\<lambda>f. worktreeName f = ''agent-1'') b = [file_committed])"
proof -
  have h1: "uncommitted file_uncommitted = Some True"
    and h2: "uncommitted file_committed \<noteq> Some True"
    by (simp_all add: file_uncommitted_def file_committed_def)
  have h3: "filter (\<lambda>f. relativePath f = ''src/file.ts'' \<and> worktreeName f = ''agent-1'')
     (concat [[file_uncommitted], [file_committed]]) = [file_uncommitted, file_committed]"
    by (simp add: file_uncommitted_def file_committed_def)
  have h4: "filter (\<lambda>f. relativePath f = ''src/file.ts'' \<and> worktreeName f = ''agent-1'')
     (concat [[file_committed, file_uncommitted]]) = [file_committed, file_uncommitted]"
    by (simp add: file_uncommitted_def file_committed_def)
  from aggregateFiles_committed_supersedes [OF h1 h2 disjI1, OF h3]
    aggregateFiles_committed_supersedes [OF h1 h2 disjI2, OF h4] h1 h2 h3 h4
  show ?thesis by blast
qed

section \<open>Generational diff\<close>

lemma trackedFilesEqual_from_iff:
  "trackedFilesEqual_from i a b \<longleftrightarrow>
     (\<forall>j. i \<le> j \<and> j < length a \<longrightarrow> \<not> record_differs (a ! j) (b ! j))"
proof (induction i a b rule: trackedFilesEqual_from.induct)
  case (1 i a b)
  show ?case
  proof (cases "i < length a")
    case False
    then show ?thesis by (subst trackedFilesEqual_from.simps) auto
  next
    case True
    have split: "i \<le> j \<longleftrightarrow> j = i \<or> Suc i \<le> j" for j by auto
    show ?thesis
    proof (cases "record_differs (a ! i) (b ! i)")
      case differs: True
      with True show ?thesis
        by (subst trackedFilesEqual_from.simps) auto
    next
      case same: False
      from True same "1.IH"
      have "trackedFilesEqual_from i a b \<longleftrightarrow>
            (\<forall>j. Suc i \<le> j \<and> j < length a \<longrightarrow> \<not> record_differs (a ! j) (b ! j))"
        by (subst trackedFilesEqual_from.simps) simp
      also have "\<dots> \<longleftrightarrow> (\<forall>j. i \<le> j \<and> j < length a \<longrightarrow> \<not> record_differs (a ! j) (b ! j))"
        unfolding split using same by blast
      finally show ?thesis .
    qed
  qed
qed

lemma trackedFilesEqual_iff:
  "trackedFilesEqual a b \<longleftrightarrow>
     length a = length b \<and> (\<forall>i < length a. \<not> record_differs (a ! i) (b ! i))"
  by (simp add: trackedFilesEqual_def trackedFilesEqual_from_iff)

lemma trackedFilesEqual_fields:
  "trackedFilesEqual a b \<longleftrightarrow>
     length a = length b \<and>
     (\<forall>i < length a.
        worktreeName (a ! i) = worktreeName (b ! i) \<and>
        changeType (a ! i) = changeType (b ! i) \<and>
        uncommitted (a ! i) = uncommitted (b ! i) \<and>
        hasUncommittedOnTop (a ! i) = hasUncommittedOnTop (b ! i))"
  unfolding trackedFilesEqual_iff record_differs_def by blast

lemma trackedFilesEqual_map:
  "trackedFilesEqual a b \<longleftrightarrow>
     map (\<lambda>f. (worktreeName f, changeType f, uncommitted f, hasUncommittedOnTop f)) a =
     map (\<lambda>f. (worktreeName f, changeType f, uncommitted f, hasUncommittedOnTop f)) b"
  (is "_ \<longleftrightarrow> map ?k a = map ?k b")
proof -
  have "map ?k a = map ?k b \<longleftrightarrow> length a = length b \<and> (\<forall>i < length a. ?k (a ! i) = ?k (b ! i))"
    using list_eq_iff_nth_eq [of "map ?k a" "map ?k b"] by auto
  then show ?thesis
    unfolding trackedFilesEqual_fields by simp
qed

lemma set_Set_add: "set (Set_add x s) = insert x (set s)"
  by (auto simp: Set_add_def)

lemma set_fold_Set_add:
  "set (fold (\<lambda>x acc. if Q x then Set_add (key x) acc else acc) xs acc) =
     set acc \<union> key ` {x \<in> set xs. Q x}"
  by (induction xs arbitrary: acc) (auto simp: set_Set_add)

lemma getChangedPaths_alt:
  "getChangedPaths oldState newState =
     fold (\<lambda>p acc. if \<not> Map_has newState p then Set_add p acc else acc) (Map_keys oldState)
       (fold (\<lambda>e acc. if changed_entry oldState e then Set_add (fst e) acc else acc) newState [])"
proof -
  have "(\<lambda>(filePath, newFiles) changed.
                    case Map_get oldState filePath of
                      None \<Rightarrow> Set_add filePath changed
                    | Some oldFiles \<Rightarrow>
                        if \<not> trackedFilesEqual oldFiles newFiles
                        then Set_add filePath changed else changed) =
        (\<lambda>e acc. if changed_entry oldState e then Set_add (fst e) acc else acc)"
    by (auto simp: fun_eq_iff changed_entry_def split: option.splits)
  then show ?thesis
    by (simp add: getChangedPaths_def)
qed

lemma set_getChangedPaths:
  "set (getChangedPaths oldState newState) =
     fst ` {e \<in> set newState. changed_entry oldState e} \<union>
     {p \<in> set (Map_keys oldState). \<not> Map_has newState p}"
  unfolding getChangedPaths_alt
    set_fold_Set_add [where key = "\<lambda>p. p"] set_fold_Set_add [where key = fst]
  by simp

lemma wf_Map_entry: "wf_Map m \<Longrightarrow> (p, v) \<in> set m \<longleftrightarrow> Map_get m p = Some v"
  by (simp add: wf_Map_def Map_get_def)

lemma Map_has_iff: "Map_has m p \<longleftrightarrow> Map_get m p \<noteq> None"
  by (simp add: Map_has_def Map_get_def map_of_eq_None_iff)

lemma Map_keys_iff: "p \<in> set (Map_keys m) \<longleftrightarrow> Map_get m p \<noteq> None"
  by (simp add: Map_keys_def Map_get_def map_of_eq_None_iff)

lemma getChangedPaths_member_raw:
  "p \<in> set (getChangedPaths oldState newState) \<longleftrightarrow>
     (\<exists>e \<in> set newState. fst e = p \<and> changed_entry oldState e) \<or>
     (Map_get oldState p \<noteq> None \<and> Map_get newState p = None)"
proof -
  have "p \<in> set (getChangedPaths oldState newState) \<longleftrightarrow>
          p \<in> fst ` {e \<in> set newState. changed_entry oldState e} \<or>
          (p \<in> set (Map_keys oldState) \<and> \<not> Map_has newState p)"
    by (simp only: set_getChangedPaths Un_iff mem_Collect_eq)
  also have "p \<in> fst ` {e \<in> set newState. changed_entry oldState e} \<longleftrightarrow>
          (\<exists>e \<in> set newState. fst e = p \<and> changed_entry oldState e)"
    by blast
  finally show ?thesis
    by (simp only: Map_keys_iff Map_has_iff not_not)
qed

lemma getChangedPaths_member:
  assumes "wf_Map newState"
  shows "p \<in> set (getChangedPaths oldState newState) \<longleftrightarrow>
     (case Map_get newState p of
        None \<Rightarrow> Map_get oldState p \<noteq> None
      | Some b \<Rightarrow> (case Map_get oldState p of None \<Rightarrow> True
                  | Some a \<Rightarrow> \<not> trackedFilesEqual a b))"
proof (cases "Map_get newState p")
  case None
  have "fst e \<noteq> p" if "e \<in> set newState" for e
  proof
    assume "fst e = p"
    with that have "(p, snd e) \<in> set newState" by (cases e) auto
    with None show False using wf_Map_entry [OF assms, of p "snd e"] by simp
  qed
  then have "\<not> (\<exists>e \<in> set newState. fst e = p \<and> changed_entry oldState e)"
    by blast
  with None have "p \<in> set (getChangedPaths oldState newState) \<longleftrightarrow> Map_get oldState p \<noteq> None"
    unfolding getChangedPaths_member_raw by blast
  with None show ?thesis by simp
next
  case (Some b)
  then have entry: "(p, b) \<in> set newState"
    using wf_Map_entry [OF assms, of p b] by simp
  have only: "e = (p, b)" if "e \<in> set newState" "fst e = p" for e
  proof -
    from that have "(p, snd e) \<in> set newState" by (cases e) auto
    then have "Map_get newState p = Some (snd e)"
      using wf_Map_entry [OF assms, of p "snd e"] by simp
    with Some that(2) show ?thesis by (cases e) simp
  qed
  have "(\<exists>e \<in> set newState. fst e = p \<and> changed_entry oldState e) \<longleftrightarrow>
          changed_entry oldState (p, b)"
  proof
    assume "\<exists>e \<in> set newState. fst e = p \<and> changed_entry oldState e"
    then obtain e where "e \<in> set newState" "fst e = p" "changed_entry oldState e"
      by blast
    with only [of e] show "changed_entry oldState (p, b)" by simp
  next
    assume "changed_entry oldState (p, b)"
    with entry show "\<exists>e \<in> set newState. fst e = p \<and> changed_entry oldState e"
      by (intro bexI [of _ "(p, b)"]) simp_all
  qed
  with Some have "p \<in> set (getChangedPaths oldState newState) \<longleftrightarrow>
      changed_entry oldState (p, b)"
    unfolding getChangedPaths_member_raw by simp
  with Some show ?thesis
    by (simp add: changed_entry_def split: option.splits)
qed

text \<open>
  Claim C3.  For an old map and a new map (a \<^verbatim>\<open>Map\<close>: its keys are distinct), the paths
  returned by \<^verbatim>\<open>getChangedPaths\<close> are exactly those present in the new map but not
  the old, or in the old but not the new, or in both with record sequences that differ, where
  two sequences are equal when they have the same length and record \<open>i\<close> of one agrees with
  record \<open>i\<close> of the other on every compared field.
\<close>

theorem getChangedPaths_exact:
  assumes "wf_Map newState"
  shows "set (getChangedPaths oldState newState) =
     {p. (Map_has newState p \<and> \<not> Map_has oldState p) \<or>
         (Map_has oldState p \<and> \<not> Map_has newState p) \<or>
         (\<exists>a b. Map_get oldState p = Some a \<and> Map_get newState p = Some b \<and>
            \<not> (length a = length b \<and>
               (\<forall>i < length a.
                  worktreeName (a ! i) = worktreeName (b ! i) \<and>
                  changeType (a ! i) = changeType (b ! i) \<and>
                  uncommitted (a ! i) = uncommitted (b ! i) \<and>
                  hasUncommittedOnTop (a ! i) = hasUncommittedOnTop (b ! i))))}"
  (is "?lhs = {p. ?changed p}")
proof -
  have iff: "p \<in> ?lhs \<longleftrightarrow> ?changed p" for p
  proof (cases "Map_get newState p")
    case None
    then show ?thesis
      by (simp add: getChangedPaths_member [OF assms] Map_has_iff)
  next
    case new: (Some b)
    show ?thesis
    proof (cases "Map_get oldState p")
      case None
      with new show ?thesis
        by (simp add: getChangedPaths_member [OF assms] Map_has_iff)
    next
      case (Some a)
      with new show ?thesis
        by (simp add: getChangedPaths_member [OF assms] Map_has_iff
              trackedFilesEqual_fields [symmetric])
    qed
  qed
  have "?lhs = {p. p \<in> ?lhs}" by simp
  also have "\<dots> = {p. ?changed p}" by (rule Collect_cong) (rule iff)
  finally show ?thesis .
qed

text \<open>Equality is positional: the same two records in the other order are a change.\<close>

theorem getChangedPaths_exact_witness:
  "wf_Map map_swapped \<and> set (getChangedPaths map_two_agents map_swapped) = {''src/file.ts''}"
proof -
  have wf: "wf_Map map_swapped" by (simp add: wf_Map_def map_swapped_def)
  have get: "Map_get map_two_agents p = (if p = ''src/file.ts'' then Some [file_plain ''agent-1'' ''b1'', file_plain ''agent-2'' ''b2''] else None)"
       "Map_get map_swapped p = (if p = ''src/file.ts'' then Some [file_plain ''agent-2'' ''b2'', file_plain ''agent-1'' ''b1''] else None)"
       "Map_has map_two_agents p \<longleftrightarrow> p = ''src/file.ts''"
       "Map_has map_swapped p \<longleftrightarrow> p = ''src/file.ts''" for p
    by (simp_all add: Map_get_def Map_has_def map_two_agents_def map_swapped_def)
  have "set (getChangedPaths map_two_agents map_swapped) = {''src/file.ts''}"
    unfolding getChangedPaths_exact [OF wf, of map_two_agents] get
    by (auto simp: file_plain_def)
  with wf show ?thesis by simp
qed

text \<open>
  Claim C10.  Only \<open>worktreeName\<close>, \<open>changeType\<close>, \<open>uncommitted\<close> and
  \<open>hasUncommittedOnTop\<close> are compared: for two maps with the same paths whose record
  sequences agree position by position on these four fields, whatever their \<open>branch\<close> and
  \<open>relativePath\<close> fields are, \<^verbatim>\<open>getChangedPaths\<close> returns the empty set.
\<close>

theorem getChangedPaths_ignores_branch_and_path:
  assumes "wf_Map newState"
    and "set (Map_keys oldState) = set (Map_keys newState)"
    and "\<forall>p a b. Map_get oldState p = Some a \<and> Map_get newState p = Some b \<longrightarrow>
           length a = length b \<and>
           (\<forall>i < length a.
              worktreeName (a ! i) = worktreeName (b ! i) \<and>
              changeType (a ! i) = changeType (b ! i) \<and>
              uncommitted (a ! i) = uncommitted (b ! i) \<and>
              hasUncommittedOnTop (a ! i) = hasUncommittedOnTop (b ! i))"
  shows "getChangedPaths oldState newState = []"
proof -
  have keys: "Map_get oldState p = None \<longleftrightarrow> Map_get newState p = None" for p
  proof -
    have "p \<in> set (Map_keys oldState) \<longleftrightarrow> p \<in> set (Map_keys newState)"
      by (simp only: assms(2))
    then show ?thesis
      unfolding Map_keys_iff by blast
  qed
  have "p \<notin> set (getChangedPaths oldState newState)" for p
  proof (cases "Map_get oldState p")
    case None
    with keys [of p] have "Map_get newState p = None" by simp
    with None show ?thesis
      by (simp add: getChangedPaths_member [OF assms(1)])
  next
    case (Some a)
    with keys [of p] obtain b where b: "Map_get newState p = Some b" by auto
    from assms(3) Some b have "trackedFilesEqual a b"
      unfolding trackedFilesEqual_fields by (elim allE [of _ p] allE [of _ a] allE [of _ b]) simp
    with Some b show ?thesis
      by (simp add: getChangedPaths_member [OF assms(1)])
  qed
  then show ?thesis by (cases "getChangedPaths oldState newState") auto
qed

theorem getChangedPaths_ignores_branch_and_path_witness:
  "wf_Map map_renamed \<and> set (Map_keys map_two_agents) = set (Map_keys map_renamed) \<and>
   branch (hd (snd (hd map_two_agents))) \<noteq> branch (hd (snd (hd map_renamed))) \<and>
   relativePath (hd (snd (hd map_two_agents))) \<noteq> relativePath (hd (snd (hd map_renamed))) \<and>
   getChangedPaths map_two_agents map_renamed = []"
proof -
  have wf: "wf_Map map_renamed" by (simp add: wf_Map_def map_renamed_def)
  have keys: "set (Map_keys map_two_agents) = set (Map_keys map_renamed)"
    by (simp add: Map_keys_def map_two_agents_def map_renamed_def)
  have agree: "\<forall>p a b. Map_get map_two_agents p = Some a \<and> Map_get map_renamed p = Some b \<longrightarrow>
           length a = length b \<and>
           (\<forall>i < length a.
              worktreeName (a ! i) = worktreeName (b ! i) \<and>
              changeType (a ! i) = changeType (b ! i) \<and>
              uncommitted (a ! i) = uncommitted (b ! i) \<and>
              hasUncommittedOnTop (a ! i) = hasUncommittedOnTop (b ! i))"
    by (auto simp: Map_get_def map_two_agents_def map_renamed_def file_plain_def less_Suc_eq split: if_splits)
  have diff: "branch (hd (snd (hd map_two_agents))) \<noteq> branch (hd (snd (hd map_renamed)))"
    "relativePath (hd (snd (hd map_two_agents))) \<noteq> relativePath (hd (snd (hd map_renamed)))"
    by (simp_all add: map_two_agents_def map_renamed_def file_plain_def)
  from getChangedPaths_ignores_branch_and_path [OF wf keys agree] wf keys diff
  show ?thesis by simp
qed

section \<open>Diff record parser\<close>

lemma fold_parse_line_step:
  "fold (parse_line_step w b u) ls acc = acc @ concat (map (\<lambda>l. parse_line_step w b u l []) ls)"
proof (induction ls arbitrary: acc)
  case Nil
  then show ?case by simp
next
  case (Cons l ls)
  have "parse_line_step w b u l acc = acc @ parse_line_step w b u l []"
    by (simp add: parse_line_step_def split: option.splits)
  then show ?case by (simp add: Cons.IH)
qed

lemma match_diff_line_Nil: "match_diff_line [] = None"
  by (simp add: match_diff_line_def)

lemma concat_map_filter_nonempty:
  "f [] = [] \<Longrightarrow> concat (map f (filter (\<lambda>l. length l > 0) ls)) = concat (map f ls)"
  by (induction ls) auto

text \<open>
  Claim C4, as amended.  \<^verbatim>\<open>parseGitDiffOutput\<close> yields, in order, the records of the
  lines of the trimmed output, each line on its own: a line made of one of the letters
  \<open>A\<close>, \<open>M\<close>, \<open>D\<close>, \<open>R\<close>, \<open>C\<close>, a tab and a non-empty path without line
  terminator gives one record (\<open>Added\<close> for \<open>A\<close>, \<open>Deleted\<close> for \<open>D\<close>, \<open>Modified\<close>
  for \<open>M\<close>, \<open>R\<close> and \<open>C\<close>); every other line, one with another status letter included,
  gives none.
\<close>

theorem parseGitDiffOutput_lines:
  "parseGitDiffOutput output w b u =
     concat (map (\<lambda>line.
        case line of
          status # t # filePath \<Rightarrow>
            if status \<in> {CHR ''A'', CHR ''M'', CHR ''D'', CHR ''R'', CHR ''C''} \<and> t = TAB \<and>
               filePath \<noteq> [] \<and> CR \<notin> set filePath \<and> LF \<notin> set filePath
            then [\<lparr>relativePath = filePath, worktreeName = w, branch = b,
                   changeType = (if status = CHR ''A'' then Added
                                 else if status = CHR ''D'' then Deleted else Modified),
                   uncommitted = (if u then Some True else None),
                   hasUncommittedOnTop = None\<rparr>]
            else []
        | _ \<Rightarrow> [])
      (split_lines (trim output)))"
proof -
  have step: "parse_line_step w b u line [] =
      (case line of
          status # t # filePath \<Rightarrow>
            if status \<in> {CHR ''A'', CHR ''M'', CHR ''D'', CHR ''R'', CHR ''C''} \<and> t = TAB \<and>
               filePath \<noteq> [] \<and> CR \<notin> set filePath \<and> LF \<notin> set filePath
            then [\<lparr>relativePath = filePath, worktreeName = w, branch = b,
                   changeType = (if status = CHR ''A'' then Added
                                 else if status = CHR ''D'' then Deleted else Modified),
                   uncommitted = (if u then Some True else None),
                   hasUncommittedOnTop = None\<rparr>]
            else []
        | _ \<Rightarrow> [])" for line
    by (auto simp: parse_line_step_def match_diff_line_def changeType_of_status_def
          is_line_terminator_def list_all_iff split: list.splits)
  have nil: "parse_line_step w b u [] [] = []"
    by (simp add: parse_line_step_def match_diff_line_Nil)
  have "parseGitDiffOutput output w b u =
          concat (map (\<lambda>l. parse_line_step w b u l []) (split_lines (trim output)))"
    unfolding parseGitDiffOutput_def Let_def fold_parse_line_step
    using concat_map_filter_nonempty [of "\<lambda>l. parse_line_step w b u l []", OF nil]
    by simp
  then show ?thesis by (simp only: step)
qed

theorem parseGitDiffOutput_lines_witness:
  "parseGitDiffOutput diff_listing ''agent-1'' ''b1'' False =
     [\<lparr>relativePath = ''src/new1.ts'', worktreeName = ''agent-1'', branch = ''b1'',
       changeType = Added, uncommitted = None, hasUncommittedOnTop = None\<rparr>,
      \<lparr>relativePath = ''src/changed.ts'', worktreeName = ''agent-1'', branch = ''b1'',
       changeType = Modified, uncommitted = None, hasUncommittedOnTop = None\<rparr>,
      \<lparr>relativePath = ''src/removed.ts'', worktreeName = ''agent-1'', branch = ''b1'',
       changeType = Deleted, uncommitted = None, hasUncommittedOnTop = None\<rparr>]"
proof -
  have lines: "split_lines (trim diff_listing) =
     [''A'' @ [TAB] @ ''src/new1.ts'', ''M'' @ [TAB] @ ''src/changed.ts'',
      ''T'' @ [TAB] @ ''src/link'', ''D'' @ [TAB] @ ''src/removed.ts'']"
    by (simp add: diff_listing_def trim_def is_js_whitespace_def TAB_def LF_def CR_def cons_first_def)
  show ?thesis
    unfolding parseGitDiffOutput_lines lines
    by (simp add: TAB_def LF_def CR_def)
qed

text \<open>The claim as stated maps an unrecognized status letter to \<open>Modified\<close>; the pattern
  admits the five letters only, so a type-change line is skipped and the \<^verbatim>\<open>default\<close>
  branch of the switch is never reached.\<close>

theorem parseGitDiffOutput_unrecognized_letter_counterexample:
  "parseGitDiffOutput (''T'' @ [TAB] @ ''src/link'' @ [LF]) ''agent-1'' ''b1'' False = []"
  by (simp add: parseGitDiffOutput_def trim_def is_js_whitespace_def TAB_def LF_def CR_def
      cons_first_def parse_line_step_def match_diff_line_def)

section \<open>Merging committed and uncommitted changes\<close>

lemma committedPathsMap_snoc:
  "committedPathsMap (xs @ [x]) = Map_set (relativePath x) (length xs) (committedPathsMap xs)"
  by (simp add: committedPathsMap_def enumerate_append_eq)

lemma committedPathsMap_Some:
  "Map_get (committedPathsMap xs) p = Some i \<Longrightarrow>
     i < length xs \<and> relativePath (xs ! i) = p \<and>
     (\<forall>j. i < j \<and> j < length xs \<longrightarrow> relativePath (xs ! j) \<noteq> p)"
proof (induction xs arbitrary: i rule: rev_induct)
  case Nil
  then show ?case by (simp add: committedPathsMap_def Map_get_def)
next
  case (snoc x xs)
  show ?case
  proof (cases "p = relativePath x")
    case True
    with snoc.prems have "i = length xs"
      by (simp add: committedPathsMap_snoc Map_get_Map_set)
    with True show ?thesis by auto
  next
    case False
    with snoc.prems have "Map_get (committedPathsMap xs) p = Some i"
      by (simp add: committedPathsMap_snoc Map_get_Map_set)
    from snoc.IH [OF this] False show ?thesis
      by (auto simp: nth_append less_Suc_eq)
  qed
qed

lemma committedPathsMap_None:
  "Map_get (committedPathsMap xs) p = None \<longleftrightarrow> p \<notin> relativePath ` set xs"
proof (induction xs rule: rev_induct)
  case Nil
  then show ?case by (simp add: committedPathsMap_def Map_get_def)
next
  case (snoc x xs)
  then show ?case
    by (auto simp: committedPathsMap_snoc Map_get_Map_set)
qed

lemma spec_mark_baseline_cong:
  "(\<And>f. f \<in> set xs \<Longrightarrow> relativePath f \<in> Q \<longleftrightarrow> relativePath f \<in> Q') \<Longrightarrow>
     spec_mark_baseline Q xs = spec_mark_baseline Q' xs"
  by (induction xs) auto

lemma map_relativePath_mark:
  "map relativePath (xs[i := (xs ! i)\<lparr>hasUncommittedOnTop := Some True\<rparr>]) = map relativePath xs"
  by (induction xs arbitrary: i) (auto split: nat.splits)

lemma paths_mark:
  "relativePath ` set (xs[i := (xs ! i)\<lparr>hasUncommittedOnTop := Some True\<rparr>]) = relativePath ` set xs"
  using map_relativePath_mark [of xs i] by (metis list.set_map)

lemma spec_mark_baseline_update:
  "i < length xs \<Longrightarrow> relativePath (xs ! i) = p \<Longrightarrow>
   (\<forall>j. i < j \<and> j < length xs \<longrightarrow> relativePath (xs ! j) \<noteq> p) \<Longrightarrow>
     spec_mark_baseline Q (xs[i := (xs ! i)\<lparr>hasUncommittedOnTop := Some True\<rparr>]) =
     spec_mark_baseline (insert p Q) xs"
proof (induction xs arbitrary: i)
  case Nil
  then show ?case by simp
next
  case (Cons f fs)
  show ?case
  proof (cases i)
    case 0
    with Cons.prems have p: "relativePath f = p" by simp
    have "relativePath g \<noteq> p" if "g \<in> set fs" for g
    proof -
      from that obtain k where "k < length fs" "fs ! k = g" by (auto simp: in_set_conv_nth)
      with Cons.prems(3) [rule_format, of "Suc k"] 0 show ?thesis by auto
    qed
    then have notin: "p \<notin> relativePath ` set fs" by auto
    then have "spec_mark_baseline (insert p Q) fs = spec_mark_baseline Q fs"
      by (intro spec_mark_baseline_cong) auto
    with 0 p notin show ?thesis by simp
  next
    case (Suc k)
    with Cons.prems have k: "k < length fs" "relativePath (fs ! k) = p"
      "\<forall>j. k < j \<and> j < length fs \<longrightarrow> relativePath (fs ! j) \<noteq> p"
      by auto
    from k(1,2) have pin: "p \<in> relativePath ` set fs" by (metis imageI nth_mem)
    from Cons.IH [OF k] Suc pin show ?thesis
      by (auto simp: paths_mark)
  qed
qed

lemma spec_mark_baseline_empty: "spec_mark_baseline {} xs = xs"
  by (induction xs) auto

lemma merge_loop_spec:
  assumes "map relativePath (take (length committed) all) = map relativePath committed"
    and "length committed \<le> length all"
  shows "merge_loop (committedPathsMap committed) us seen all =
     spec_mark_baseline (relativePath ` set us - seen) (take (length committed) all) @
     drop (length committed) all @
     filter (\<lambda>u. relativePath u \<notin> relativePath ` set committed)
       (spec_dedup_by_path (filter (\<lambda>u. relativePath u \<notin> seen) us))"
  using assms
proof (induction us arbitrary: seen all)
  case Nil
  then show ?case by (simp add: spec_mark_baseline_empty)
next
  case (Cons u us)
  let ?n = "length committed"
  let ?p = "relativePath u"
  let ?cm = "committedPathsMap committed"
  let ?new = "\<lambda>us. filter (\<lambda>u. relativePath u \<notin> relativePath ` set committed) (spec_dedup_by_path us)"
  show ?case
  proof (cases "?p \<in> seen")
    case True
    then have "relativePath ` set (u # us) - seen = relativePath ` set us - seen" by auto
    with True Cons.IH [OF Cons.prems] show ?thesis by simp
  next
    case False
    have ff: "filter (\<lambda>v. relativePath v \<noteq> ?p) (filter (\<lambda>u. relativePath u \<notin> seen) us) =
              filter (\<lambda>u. relativePath u \<notin> insert ?p seen) us"
      by (simp add: conj_commute cong: filter_cong)
    have f1: "filter (\<lambda>u. relativePath u \<notin> seen) (u # us) =
              u # filter (\<lambda>u. relativePath u \<notin> seen) us"
      using False by simp
    have dedup: "spec_dedup_by_path (filter (\<lambda>u. relativePath u \<notin> seen) (u # us)) =
              u # spec_dedup_by_path (filter (\<lambda>u. relativePath u \<notin> insert ?p seen) us)"
      unfolding f1 spec_dedup_by_path.simps ff ..
    have sets: "relativePath ` set (u # us) - seen = insert ?p (relativePath ` set us - insert ?p seen)"
      using False by auto
    show ?thesis
    proof (cases "Map_get ?cm ?p")
      case None
      then have notin: "?p \<notin> relativePath ` set committed"
        by (simp add: committedPathsMap_None)
      have paths: "relativePath ` set (take ?n all) = relativePath ` set committed"
        using Cons.prems(1) by (metis list.set_map)
      let ?all' = "all @ [u]"
      have step: "merge_loop ?cm (u # us) seen all = merge_loop ?cm us (insert ?p seen) ?all'"
        using None False by simp
      have pre: "map relativePath (take ?n ?all') = map relativePath committed" "?n \<le> length ?all'"
        using Cons.prems by simp_all
      have td: "take ?n ?all' = take ?n all" "drop ?n ?all' = drop ?n all @ [u]"
        using Cons.prems(2) by simp_all
      have mark: "spec_mark_baseline (relativePath ` set (u # us) - seen) (take ?n all) =
                  spec_mark_baseline (relativePath ` set us - insert ?p seen) (take ?n all)"
      proof (intro spec_mark_baseline_cong)
        fix f assume "f \<in> set (take ?n all)"
        then have "relativePath f \<in> relativePath ` set committed"
          using paths by (metis imageI)
        with notin have "relativePath f \<noteq> ?p" by metis
        then show "relativePath f \<in> relativePath ` set (u # us) - seen \<longleftrightarrow>
                   relativePath f \<in> relativePath ` set us - insert ?p seen"
          unfolding sets by simp
      qed
      have new: "?new (filter (\<lambda>u. relativePath u \<notin> seen) (u # us)) =
                 u # ?new (filter (\<lambda>u. relativePath u \<notin> insert ?p seen) us)"
        unfolding dedup using notin by simp
      show ?thesis
        unfolding step Cons.IH [OF pre] td mark new by simp
    next
      case (Some i)
      from committedPathsMap_Some [OF Some]
      have i: "i < ?n" "relativePath (committed ! i) = ?p"
        "\<forall>j. i < j \<and> j < ?n \<longrightarrow> relativePath (committed ! j) \<noteq> ?p"
        by auto
      then have pin: "?p \<in> relativePath ` set committed" by (metis imageI nth_mem)
      let ?pre = "take ?n all"
      have len: "length ?pre = ?n" using Cons.prems(2) by simp
      have nth: "relativePath (?pre ! j) = relativePath (committed ! j)" if "j < ?n" for j
        using Cons.prems(1) that len by (metis nth_map)
      let ?all' = "all[i := (all ! i)\<lparr>hasUncommittedOnTop := Some True\<rparr>]"
      have step: "merge_loop ?cm (u # us) seen all = merge_loop ?cm us (insert ?p seen) ?all'"
        using Some False by simp
      have take': "take ?n ?all' = ?pre[i := (?pre ! i)\<lparr>hasUncommittedOnTop := Some True\<rparr>]"
        using i(1) by (simp add: take_update_swap)
      have pre: "map relativePath (take ?n ?all') = map relativePath committed" "?n \<le> length ?all'"
        using Cons.prems by (simp_all add: take' map_relativePath_mark)
      have drop': "drop ?n ?all' = drop ?n all"
        using i(1) by simp
      have mark: "spec_mark_baseline (relativePath ` set us - insert ?p seen) (take ?n ?all') =
                  spec_mark_baseline (relativePath ` set (u # us) - seen) ?pre"
        unfolding take' sets
        using i nth len by (intro spec_mark_baseline_update) auto
      have new: "?new (filter (\<lambda>u. relativePath u \<notin> seen) (u # us)) =
                 ?new (filter (\<lambda>u. relativePath u \<notin> insert ?p seen) us)"
        unfolding dedup using pin by simp
      show ?thesis
        unfolding step Cons.IH [OF pre] drop' mark new ..
    qed
  qed
qed

text \<open>
  Claim C2.  Given the committed baseline and the lists (a) unstaged, (b) staged and
  (c) untracked, the merge step returns the baseline, in which the record of every path
  listed by (a), (b) or (c) has \<open>hasUncommittedOnTop = true\<close> and no record is added for
  such a path, followed by one record for each other path of (a)+(b)+(c): the record of
  the first source that lists the path, in the order of first occurrence.
\<close>

theorem mergeUncommitted_spec:
  "mergeUncommitted committed a b c =
     spec_mark_baseline (relativePath ` set (a @ b @ c)) committed @
     filter (\<lambda>u. relativePath u \<notin> relativePath ` set committed)
       (spec_dedup_by_path (a @ b @ c))"
  unfolding mergeUncommitted_def
  by (subst merge_loop_spec) simp_all

theorem mergeUncommitted_spec_witness:
  "mergeUncommitted [baseline_a, baseline_b] [unstaged_a, unstaged_c] [staged_c]
       [untracked_d, staged_c] =
     [baseline_a\<lparr>hasUncommittedOnTop := Some True\<rparr>, baseline_b, unstaged_c, untracked_d]"
  unfolding mergeUncommitted_spec
  by (simp add: baseline_a_def baseline_b_def unstaged_a_def unstaged_c_def staged_c_def
        untracked_d_def)

text \<open>What the two specification functions say.  With a baseline that lists each path
  once, as a diff listing does, every record of an uncommitted path is marked.\<close>

lemma spec_mark_baseline_distinct:
  "distinct (map relativePath fs) \<Longrightarrow>
     spec_mark_baseline ps fs =
       map (\<lambda>f. if relativePath f \<in> ps then f\<lparr>hasUncommittedOnTop := Some True\<rparr> else f) fs"
  by (induction fs) auto

lemma set_spec_dedup_by_path: "set (spec_dedup_by_path us) \<subseteq> set us"
  by (induction us rule: spec_dedup_by_path.induct) auto

lemma paths_spec_dedup_by_path:
  "relativePath ` set (spec_dedup_by_path us) = relativePath ` set us"
  by (induction us rule: spec_dedup_by_path.induct) auto

lemma distinct_spec_dedup_by_path: "distinct (map relativePath (spec_dedup_by_path us))"
proof (induction us rule: spec_dedup_by_path.induct)
  case 1
  then show ?case by simp
next
  case (2 u us)
  have "relativePath u \<notin> relativePath ` set (filter (\<lambda>v. relativePath v \<noteq> relativePath u) us)"
    by auto
  then have "relativePath u \<notin>
      relativePath ` set (spec_dedup_by_path (filter (\<lambda>v. relativePath v \<noteq> relativePath u) us))"
    unfolding paths_spec_dedup_by_path .
  with 2 show ?case by simp
qed

lemma spec_dedup_by_path_first:
  "r \<in> set (spec_dedup_by_path us) \<Longrightarrow>
     find (\<lambda>u. relativePath u = relativePath r) us = Some r"
proof (induction us rule: spec_dedup_by_path.induct)
  case 1
  then show ?case by simp
next
  case (2 u us)
  show ?case
  proof (cases "r = u")
    case True
    then show ?thesis by simp
  next
    case False
    with "2.prems" have mem: "r \<in> set (spec_dedup_by_path (filter (\<lambda>v. relativePath v \<noteq> relativePath u) us))"
      by simp
    then have "r \<in> set (filter (\<lambda>v. relativePath v \<noteq> relativePath u) us)"
      using set_spec_dedup_by_path by blast
    then have ne: "relativePath r \<noteq> relativePath u" by simp
    have "find (\<lambda>w. relativePath w = relativePath r) (filter (\<lambda>v. relativePath v \<noteq> relativePath u) us) =
          find (\<lambda>w. relativePath w = relativePath r) us"
      using ne by (induction us) auto
    with "2.IH" [OF mem] ne show ?thesis by auto
  qed
qed

section \<open>Worktree discovery\<close>

lemma fold_block_line_step_main:
  "snd (snd (fold block_line_step ls (wp, br, m))) \<longleftrightarrow> m \<or> ''bare'' \<in> set ls"
proof (induction ls arbitrary: wp br m)
  case Nil
  then show ?case by simp
next
  case (Cons l ls)
  have "\<not> startsWith ''bare'' ''worktree ''" "\<not> startsWith ''bare'' ''branch ''"
    by (simp_all add: startsWith_def)
  then have "\<exists>wp' br'. block_line_step l (wp, br, m) = (wp', br', m \<or> l = ''bare'')"
    by (cases "l = ''bare''") (simp_all add: block_line_step_def)
  then obtain wp' br' where
    "block_line_step l (wp, br, m) = (wp', br', m \<or> l = ''bare'')"
    by blast
  with Cons.IH [of wp' br' "m \<or> l = ''bare''"] show ?case by auto
qed

lemma parse_block_step_acc:
  "parse_block_step resolve root block acc = acc @ parse_block_step resolve root block []"
  by (simp add: parse_block_step_def split: prod.splits)

lemma fold_parse_block_step:
  "fold (parse_block_step resolve root) blocks acc =
     acc @ concat (map (\<lambda>block. parse_block_step resolve root block []) blocks)"
proof (induction blocks arbitrary: acc)
  case Nil
  then show ?case by simp
next
  case (Cons b blocks)
  show ?case
    by (simp add: Cons.IH parse_block_step_acc [of resolve root b acc])
qed

lemma parse_block_step_main:
  "parse_block_step resolve root block [] = [] \<or>
   (\<exists>w. parse_block_step resolve root block [] = [w] \<and>
        (isMainWorktree w \<longleftrightarrow>
           ''bare'' \<in> set (split_lines block) \<or> resolve (path w) = resolve root))"
proof -
  obtain wp br m where st: "fold block_line_step (split_lines block) ([], [], False) = (wp, br, m)"
    by (metis prod_cases3)
  with fold_block_line_step_main [of "split_lines block" "[]" "[]" False]
  have "m \<longleftrightarrow> ''bare'' \<in> set (split_lines block)" by simp
  with st show ?thesis
    by (simp add: parse_block_step_def)
qed

text \<open>
  Claim C6, as amended.  \<^verbatim>\<open>parseWorktreeList\<close> handles the blocks of the trimmed listing
  one by one; a block gives no Worktree or one, and that Worktree has
  \<open>isMainWorktree = true\<close> exactly when the block has a line \<open>bare\<close> or its path and the
  workspace root resolve to the same path.  Nothing makes the number of such entries one.
\<close>

theorem parseWorktreeList_main:
  "parseWorktreeList resolve output root =
     concat (map (\<lambda>block. parse_block_step resolve root block []) (split_blocks (trim output))) \<and>
   (\<forall>block.
      parse_block_step resolve root block [] = [] \<or>
      (\<exists>w. parse_block_step resolve root block [] = [w] \<and>
         (isMainWorktree w \<longleftrightarrow>
            ''bare'' \<in> set (split_lines block) \<or> resolve (path w) = resolve root)))"
  using parse_block_step_main [of resolve root]
  by (simp add: parseWorktreeList_def fold_parse_block_step)

text \<open>The definitions that evaluate the string functions on a literal.\<close>

lemmas eval_strings = trim_def is_js_whitespace_def TAB_def LF_def CR_def cons_first_def
  startsWith_def block_separator_def

theorem parseWorktreeList_main_witness:
  "parseWorktreeList (posix_resolve ''/home/user'') listing_bare ''/other/path'' =
     [\<lparr>path = ''/home/user/project.git'', branch = ''HEAD'', isMainWorktree = True\<rparr>,
      \<lparr>path = ''/home/user/worktree-agent-1'', branch = ''feature/task-1'',
       isMainWorktree = False\<rparr>]"
proof -
  have blocks: "split_blocks (trim listing_bare) =
     [''worktree /home/user/project.git'' @ [LF] @ ''bare'',
      ''worktree /home/user/worktree-agent-1'' @ [LF] @ ''HEAD def456'' @ [LF] @
      ''branch refs/heads/feature/task-1'']"
    by (simp add: listing_bare_def eval_strings)
  show ?thesis
    unfolding parseWorktreeList_main [THEN conjunct1] blocks
    by (simp add: parse_block_step_def block_line_step_def posix_resolve_def eval_strings)
qed

text \<open>The claim as stated fails both ways: the listing of the repository's test
  \<open>handles detached HEAD\<close> has one entry and no main one (the workspace root is not
  listed), and a bare repository listed with the worktree that is the workspace root gives
  two main entries.\<close>

theorem parseWorktreeList_exactly_one_main_counterexample:
  "filter isMainWorktree
     (parseWorktreeList (posix_resolve ''/home/user'') listing_detached ''/home/user/project'') = [] \<and>
   parseWorktreeList (posix_resolve ''/home/user'') listing_detached ''/home/user/project'' \<noteq> [] \<and>
   length (filter isMainWorktree
     (parseWorktreeList (posix_resolve ''/home/user'') listing_bare
        ''/home/user/worktree-agent-1'')) = 2"
  by (simp add: parseWorktreeList_def listing_detached_def listing_bare_def parse_block_step_def
      block_line_step_def posix_resolve_def eval_strings)

section \<open>State store\<close>

lemma map_of_Map_set: "map_of (Map_set k v m) = (map_of m)(k \<mapsto> v)"
  by (induction m) auto

lemma keys_Map_set: "fst ` set (Map_set k v m) = insert k (fst ` set m)"
proof (induction m)
  case Nil
  show ?case by simp
next
  case (Cons p m)
  obtain k' v' where p: "p = (k', v')" by (cases p)
  show ?case
    unfolding p by (cases "k' = k") (simp_all add: Cons.IH insert_commute)
qed

lemma distinct_Map_set: "distinct (map fst m) \<Longrightarrow> distinct (map fst (Map_set k v m))"
  by (induction m) (auto simp: keys_Map_set)

lemma map_of_insert_index_key:
  "k \<notin> fst ` set obj \<Longrightarrow> map_of (insert_index_key k v obj) = (map_of obj)(k \<mapsto> v)"
  by (induction obj) (auto simp: fun_upd_twist)

lemma keys_insert_index_key:
  "fst ` set (insert_index_key k v obj) = insert k (fst ` set obj)"
proof (induction obj)
  case Nil
  show ?case by simp
next
  case (Cons p obj)
  obtain k' v' where p: "p = (k', v')" by (cases p)
  show ?case
    unfolding p
    by (cases "is_array_index k' \<and> array_index_value k' < array_index_value k")
       (simp_all add: Cons.IH insert_commute)
qed

lemma distinct_insert_index_key:
  "distinct (map fst obj) \<Longrightarrow> k \<notin> fst ` set obj \<Longrightarrow>
     distinct (map fst (insert_index_key k v obj))"
  by (induction obj) (auto simp: keys_insert_index_key)

lemma map_of_snoc_new:
  "k \<notin> fst ` set obj \<Longrightarrow> map_of (obj @ [(k, v)]) = (map_of obj)(k \<mapsto> v)"
  by (induction obj) (auto simp: fun_upd_twist)

lemma map_of_object_set: "map_of (object_set k v obj) = (map_of obj)(k \<mapsto> v)"
proof (cases "k \<in> fst ` set obj")
  case True
  then show ?thesis by (simp add: object_set_def map_of_Map_set)
next
  case False
  then show ?thesis
    using map_of_insert_index_key [OF False, of v] map_of_snoc_new [OF False, of v]
    by (simp add: object_set_def del: map_of_append)
qed

lemma distinct_object_set:
  "distinct (map fst obj) \<Longrightarrow> distinct (map fst (object_set k v obj))"
  by (simp add: object_set_def distinct_Map_set distinct_insert_index_key)

lemma fold_object_set:
  "distinct (map fst obj) \<Longrightarrow>
     distinct (map fst (fold (\<lambda>(k, v) obj. object_set k v obj) es obj)) \<and>
     map_of (fold (\<lambda>(k, v) obj. object_set k v obj) es obj) = map_of obj ++ map_of (rev es)"
proof (induction es arbitrary: obj)
  case Nil
  then show ?case by simp
next
  case (Cons e es)
  obtain k v where e: "e = (k, v)" by (cases e)
  from Cons.IH [OF distinct_object_set [OF Cons.prems, of k v]]
  show ?case
    by (simp add: e map_of_object_set map_of_append map_add_assoc [symmetric] map_add_def fun_eq_iff
        split: option.splits)
qed

lemma map_of_rev_distinct: "distinct (map fst es) \<Longrightarrow> map_of (rev es) = map_of es"
  by (subst map_of_inject_set) (simp_all add: rev_map [symmetric])

lemma Object_fromEntries_lookup:
  "distinct (map fst es) \<Longrightarrow> map_of (Object_fromEntries es) = map_of es"
  using fold_object_set [of "[]" es] by (simp add: Object_fromEntries_def map_of_rev_distinct)

lemma Object_fromEntries_distinct: "distinct (map fst (Object_fromEntries es))"
  using fold_object_set [of "[]" es] by (simp add: Object_fromEntries_def)

lemma fold_Map_set_distinct:
  "distinct (map fst (m @ es)) \<Longrightarrow> fold (\<lambda>(k, v) m. Map_set k v m) es m = m @ es"
proof (induction es arbitrary: m)
  case Nil
  then show ?case by simp
next
  case (Cons e es)
  obtain k v where e: "e = (k, v)" by (cases e)
  have "Map_set k v m = m @ [(k, v)]" if "k \<notin> set (map fst m)" for m :: "(string \<times> 'a) list"
    using that by (induction m) auto
  with Cons.prems e have "Map_set k v m = m @ [(k, v)]" by auto
  with Cons.IH [of "m @ [(k, v)]"] Cons.prems e show ?case by simp
qed

lemma Map_of_entries_distinct: "distinct (map fst es) \<Longrightarrow> Map_of_entries es = es"
  using fold_Map_set_distinct [of "[]" es] by (simp add: Map_of_entries_def)

text \<open>What is read back after a successful save.\<close>

lemma loaded_map:
  "Map_of_entries (Object_entries (Object_fromEntries (Object_entries (Object_fromEntries m)))) =
     Object_fromEntries (Object_fromEntries m)"
  by (simp add: Object_entries_def Map_of_entries_distinct Object_fromEntries_distinct)

lemma loaded_map_lookup:
  assumes "wf_Map m"
  shows "wf_Map (Object_fromEntries (Object_fromEntries m))"
    and "Map_get (Object_fromEntries (Object_fromEntries m)) p = Map_get m p"
  using assms
  by (simp_all add: wf_Map_def Map_get_def Object_fromEntries_distinct Object_fromEntries_lookup)

lemmas eval_object = Object_fromEntries_def object_set_def is_array_index_def
  array_index_value_def digit_value_def Object_entries_def Map_of_entries_def

lemma trackedFilesEqual_refl: "trackedFilesEqual a a"
  by (simp add: trackedFilesEqual_map)

lemma getChangedPaths_same_lookup:
  assumes "wf_Map newState" and "\<And>p. Map_get oldState p = Map_get newState p"
  shows "getChangedPaths oldState newState = []"
proof -
  have "p \<notin> set (getChangedPaths oldState newState)" for p
    unfolding getChangedPaths_member [OF assms(1)] assms(2)
    by (simp add: trackedFilesEqual_refl split: option.splits)
  then show ?thesis by (cases "getChangedPaths oldState newState") auto
qed

text \<open>\<^verbatim>\<open>loadState\<close> on a snapshot of another version assigns nothing; on a state file
  that cannot be read or parsed, the \<^verbatim>\<open>catch\<close> branch empties the map.\<close>

lemma loadState_version_mismatch:
  "stateFile t = Snapshot s \<Longrightarrow> version s \<noteq> STATE_VERSION \<Longrightarrow> loadState t = t"
  by (simp add: loadState_def split: option.splits)

lemma loadState_unreadable: "stateFile t = Unreadable \<Longrightarrow> trackedFiles (loadState t) = []"
  by (simp add: loadState_def)

text \<open>
  The round trip.  After a successful \<^verbatim>\<open>saveState\<close>, \<^verbatim>\<open>loadState\<close> (whatever map is
  in memory by then) gives a map with the same record sequence for every path as the map
  saved, so neither is changed against the other under the positional equality of
  \<^verbatim>\<open>getChangedPaths\<close>.
\<close>

theorem saveState_loadState_roundtrip:
  assumes "wf_Map (trackedFiles t)"
  shows "(\<forall>p. Map_get (trackedFiles (loadState ((saveState now True t)\<lparr>trackedFiles := m\<rparr>))) p =
              Map_get (trackedFiles t) p) \<and>
         getChangedPaths (trackedFiles t)
           (trackedFiles (loadState ((saveState now True t)\<lparr>trackedFiles := m\<rparr>))) = [] \<and>
         getChangedPaths (trackedFiles (loadState ((saveState now True t)\<lparr>trackedFiles := m\<rparr>)))
           (trackedFiles t) = []"
proof -
  let ?loaded = "trackedFiles (loadState ((saveState now True t)\<lparr>trackedFiles := m\<rparr>))"
  have loaded: "?loaded = Object_fromEntries (Object_fromEntries (trackedFiles t))"
    by (simp add: loadState_def saveState_def loaded_map)
  have wf: "wf_Map ?loaded" and get: "Map_get ?loaded p = Map_get (trackedFiles t) p" for p
    unfolding loaded using loaded_map_lookup [OF assms] by simp_all
  have "getChangedPaths (trackedFiles t) ?loaded = []"
    using wf get by (intro getChangedPaths_same_lookup) simp_all
  moreover have "getChangedPaths ?loaded (trackedFiles t) = []"
    using assms get by (intro getChangedPaths_same_lookup) simp_all
  ultimately show ?thesis using get by blast
qed

text \<open>The round trip need not keep the order of the paths: keys that are array indices come
  back first.\<close>

theorem saveState_loadState_roundtrip_witness:
  "wf_Map map_index_keys \<and>
   trackedFiles (loadState (saveState ''2026-01-01T00:00:00.000Z'' True
     ((new_tracker NoFile)\<lparr>trackedFiles := map_index_keys\<rparr>))) =
     [(''2'', [file_committed, file_plain ''agent-2'' ''b2'']),
      (''10'', [file_uncommitted]),
      (''src/file.ts'', [file_plain ''agent-1'' ''b1''])] \<and>
   getChangedPaths map_index_keys
     (trackedFiles (loadState (saveState ''2026-01-01T00:00:00.000Z'' True
        ((new_tracker NoFile)\<lparr>trackedFiles := map_index_keys\<rparr>)))) = []"
proof -
  let ?t = "(new_tracker NoFile)\<lparr>trackedFiles := map_index_keys\<rparr>"
  let ?now = "''2026-01-01T00:00:00.000Z''"
  have wf: "wf_Map (trackedFiles ?t)" "wf_Map map_index_keys"
    by (simp_all add: wf_Map_def map_index_keys_def)
  have same: "(saveState ?now True ?t)\<lparr>trackedFiles := map_index_keys\<rparr> = saveState ?now True ?t"
    by (simp add: saveState_def)
  have order: "trackedFiles (loadState (saveState ?now True ?t)) =
     [(''2'', [file_committed, file_plain ''agent-2'' ''b2'']),
      (''10'', [file_uncommitted]),
      (''src/file.ts'', [file_plain ''agent-1'' ''b1''])]"
    by (simp add: loadState_def saveState_def new_tracker_def map_index_keys_def eval_object
        STATE_VERSION_def)
  from saveState_loadState_roundtrip [OF wf(1), where now = ?now and m = map_index_keys]
    same wf(2) order
  show ?thesis by simp
qed

text \<open>
  Claim C8.  The round trip holds, as proved above.  The claim also has \<^verbatim>\<open>loadState\<close>
  yield an empty map on every version mismatch, and there the code departs from it: a
  service that holds two records for a path and loads a snapshot of version \<open>0.9\<close> keeps
  its records, where the same service loading a state file that cannot be read or parsed
  ends with the empty map.
\<close>

theorem loadState_version_mismatch_keeps_records:
  "version old_snapshot \<noteq> STATE_VERSION \<and>
   map_two_agents \<noteq> [] \<and>
   trackedFiles (loadState
     ((new_tracker (Snapshot old_snapshot))\<lparr>trackedFiles := map_two_agents\<rparr>)) = map_two_agents \<and>
   trackedFiles (loadState
     ((new_tracker Unreadable)\<lparr>trackedFiles := map_two_agents\<rparr>)) = []"
  by (simp add: loadState_def new_tracker_def old_snapshot_def STATE_VERSION_def map_two_agents_def)

section \<open>Comparison branch resolution and pausing\<close>

lemma getComparisonBranch_invalid:
  assumes "\<not> branchExists env (resolvedBranch env)"
  shows "getComparisonBranch env t =
     (None, t\<lparr>scanningPaused := True,
              invalidBranchWarningShown := Some (resolvedBranch env),
              warningsShown := warningsShown t @
                (if invalidBranchWarningShown t = Some (resolvedBranch env) then []
                 else [resolvedBranch env])\<rparr>)"
  using assms by (simp add: getComparisonBranch_def Let_def)

lemma repeated_invalid_resolutions:
  assumes "envs \<noteq> []"
    and "\<forall>env \<in> set envs. resolvedBranch env = b \<and> \<not> branchExists env b"
  shows "fold (\<lambda>env t. snd (getComparisonBranch env t)) envs t =
     t\<lparr>scanningPaused := True, invalidBranchWarningShown := Some b,
       warningsShown := warningsShown t @
         (if invalidBranchWarningShown t = Some b then [] else [b])\<rparr>"
  using assms
proof (induction envs arbitrary: t)
  case Nil
  then show ?case by simp
next
  case (Cons env envs)
  from Cons.prems(2) have env: "resolvedBranch env = b" "\<not> branchExists env (resolvedBranch env)"
    by simp_all
  let ?t1 = "snd (getComparisonBranch env t)"
  have t1: "?t1 = t\<lparr>scanningPaused := True, invalidBranchWarningShown := Some b,
       warningsShown := warningsShown t @
         (if invalidBranchWarningShown t = Some b then [] else [b])\<rparr>"
    using getComparisonBranch_invalid [OF env(2), of t] env(1) by simp
  show ?case
  proof (cases "envs = []")
    case True
    with t1 show ?thesis by simp
  next
    case False
    from Cons.IH [OF False, of ?t1] Cons.prems(2)
    show ?thesis by (simp add: t1)
  qed
qed

lemma scanWorktree_invalid:
  "\<not> branchExists (git env) (resolvedBranch (git env)) \<Longrightarrow>
     fst (scanWorktree env worktreePath wtName br t) = []"
  by (simp add: scanWorktree_def getComparisonBranch_invalid)

lemma scanAllWorktrees_paused:
  "scanningPaused t \<Longrightarrow> scanAllWorktrees basename enabled now writable worktrees t = t"
  by (simp add: scanAllWorktrees_def)

text \<open>
  Resolutions in a row against one invalid name.  After one or more resolutions that all
  find the same invalid name \<open>b\<close>, each of which returns no branch, the service is paused
  and remembers \<open>b\<close>; these resolutions have shown one warning for \<open>b\<close>, or none when
  \<open>b\<close> was already the name last warned about; \<^verbatim>\<open>scanAllWorktrees\<close> then does nothing
  at all, whatever it is called with; \<^verbatim>\<open>resetScanningState\<close> (called on a configuration
  change) lifts the pause and forgets the name, and so would a resolution that finds its
  branch valid.
\<close>

theorem invalid_branch_pauses_and_warns:
  assumes "envs \<noteq> []"
    and "\<forall>env \<in> set envs. resolvedBranch env = b \<and> \<not> branchExists env b"
  shows "scanningPaused (fold (\<lambda>env t. snd (getComparisonBranch env t)) envs t) \<and>
     invalidBranchWarningShown (fold (\<lambda>env t. snd (getComparisonBranch env t)) envs t) = Some b \<and>
     warningsShown (fold (\<lambda>env t. snd (getComparisonBranch env t)) envs t) =
       warningsShown t @ (if invalidBranchWarningShown t = Some b then [] else [b]) \<and>
     (\<forall>env \<in> set envs. fst (getComparisonBranch env t) = None) \<and>
     (\<forall>basename enabled now writable worktrees.
        scanAllWorktrees basename enabled now writable worktrees
          (fold (\<lambda>env t. snd (getComparisonBranch env t)) envs t) =
        fold (\<lambda>env t. snd (getComparisonBranch env t)) envs t) \<and>
     \<not> scanningPaused (resetScanningState
          (fold (\<lambda>env t. snd (getComparisonBranch env t)) envs t)) \<and>
     invalidBranchWarningShown (resetScanningState
          (fold (\<lambda>env t. snd (getComparisonBranch env t)) envs t)) = None \<and>
     (\<forall>env. branchExists env (resolvedBranch env) \<longrightarrow>
        fst (getComparisonBranch env
          (fold (\<lambda>env t. snd (getComparisonBranch env t)) envs t)) = Some (resolvedBranch env) \<and>
        \<not> scanningPaused (snd (getComparisonBranch env
          (fold (\<lambda>env t. snd (getComparisonBranch env t)) envs t))))"
proof -
  have none: "fst (getComparisonBranch env t) = None" if "env \<in> set envs" for env
    using that assms(2) getComparisonBranch_invalid [of env t] by simp
  have valid: "fst (getComparisonBranch env t') = Some (resolvedBranch env) \<and>
      \<not> scanningPaused (snd (getComparisonBranch env t'))"
    if "branchExists env (resolvedBranch env)" for env t'
    using that by (simp add: getComparisonBranch_def Let_def)
  show ?thesis
    unfolding repeated_invalid_resolutions [OF assms]
    using none valid by (simp add: scanAllWorktrees_paused resetScanningState_def)
qed

lemma resolved_origin_head: "resolvedBranch (origin_head_env ''develop'') = ''develop''"
  "resolvedBranch (origin_head_env ''trunk'') = ''trunk''"
  by (simp_all add: resolvedBranch_def getMainBranch_def origin_head_env_def eval_strings)

lemma branchExists_origin_head: "\<not> branchExists (origin_head_env name) b"
  by (simp add: branchExists_def origin_head_env_def)

theorem invalid_branch_pauses_and_warns_witness:
  "[origin_head_env ''develop'', origin_head_env ''develop''] \<noteq> [] \<and>
   resolvedBranch (origin_head_env ''develop'') = ''develop'' \<and>
   \<not> branchExists (origin_head_env ''develop'') ''develop'' \<and>
   warningsShown (fold (\<lambda>env t. snd (getComparisonBranch env t))
      [origin_head_env ''develop'', origin_head_env ''develop''] (new_tracker NoFile)) =
     [''develop''] \<and>
   scanningPaused (fold (\<lambda>env t. snd (getComparisonBranch env t))
      [origin_head_env ''develop'', origin_head_env ''develop''] (new_tracker NoFile)) \<and>
   branchExists (origin_head_fetched_env ''develop'')
     (resolvedBranch (origin_head_fetched_env ''develop'')) \<and>
   fst (getComparisonBranch (origin_head_fetched_env ''develop'')
     (fold (\<lambda>env t. snd (getComparisonBranch env t))
        [origin_head_env ''develop'', origin_head_env ''develop''] (new_tracker NoFile))) =
     Some ''develop'' \<and>
   \<not> scanningPaused (snd (getComparisonBranch (origin_head_fetched_env ''develop'')
     (fold (\<lambda>env t. snd (getComparisonBranch env t))
        [origin_head_env ''develop'', origin_head_env ''develop''] (new_tracker NoFile))))"
proof -
  have ex: "\<not> branchExists (origin_head_env ''develop'') ''develop''"
    by (simp add: branchExists_def origin_head_env_def)
  have res: "resolvedBranch (origin_head_fetched_env ''develop'') = ''develop''"
    by (simp add: resolvedBranch_def getMainBranch_def origin_head_fetched_env_def eval_strings)
  have val: "branchExists (origin_head_fetched_env ''develop'') ''develop''"
    by (simp add: branchExists_def origin_head_fetched_env_def)
  have all: "\<forall>env \<in> set [origin_head_env ''develop'', origin_head_env ''develop''].
      resolvedBranch env = ''develop'' \<and> \<not> branchExists env ''develop''"
    using ex resolved_origin_head(1) by simp
  have ne: "[origin_head_env ''develop'', origin_head_env ''develop''] \<noteq> []" by simp
  from invalid_branch_pauses_and_warns [OF ne all, of "new_tracker NoFile"]
    ex resolved_origin_head(1) res val
  show ?thesis by (simp add: new_tracker_def)
qed

lemma scanWorktree_origin_head:
  "scanWorktree (origin_head_scan name) p n br t =
     ([], snd (getComparisonBranch (origin_head_env name) t))"
  by (simp add: scanWorktree_def origin_head_scan_def
       getComparisonBranch_invalid [OF branchExists_origin_head])

text \<open>The service after the scan that found \<open>develop\<close> missing, and the scan of a worktree
  once \<open>develop\<close> exists.\<close>

lemma paused_tracker_eval:
  "paused_tracker =
     \<lparr>trackedFiles = [], invalidBranchWarningShown = Some ''develop'', scanningPaused = True,
      stateFile = Snapshot \<lparr>version = STATE_VERSION, lastUpdated = ''2026-01-01T00:00:00.000Z'',
                            files = Some []\<rparr>,
      warningsShown = [''develop''], stateChangedFired = []\<rparr>"
  by (simp add: paused_tracker_def scanAllWorktrees_def scan_step_def scanWorktree_origin_head
      agent_worktree_def getComparisonBranch_def Let_def resolved_origin_head
      branchExists_origin_head new_tracker_def saveState_def getChangedPaths_def Map_keys_def
      eval_object)

lemma resolved_origin_head_fetched:
  "resolvedBranch (origin_head_fetched_env ''develop'') = ''develop''"
  by (simp add: resolvedBranch_def getMainBranch_def origin_head_fetched_env_def eval_strings)

lemma branchExists_origin_head_fetched:
  "branchExists (origin_head_fetched_env name) b \<longleftrightarrow> b = name"
  by (simp add: branchExists_def origin_head_fetched_env_def)

lemma parse_changed:
  "parseGitDiffOutput (''M'' @ [TAB] @ ''src/changed.ts'' @ [LF]) wt br False =
     [\<lparr>relativePath = ''src/changed.ts'', worktreeName = wt, branch = br,
       changeType = Modified, uncommitted = None, hasUncommittedOnTop = None\<rparr>]"
  by (simp add: parseGitDiffOutput_def parse_line_step_def match_diff_line_def Let_def
      changeType_of_status_def eval_strings is_line_terminator_def)

text \<open>
  Claim C7.  The pause is meant to last until the configuration changes or the branch
  becomes valid, and the warning to be shown once for each invalid name.  The code departs
  from both.  A service paused because \<open>develop\<close> was missing stays paused once \<open>develop\<close>
  exists: a resolution would now return \<open>develop\<close> and lift the pause, but the paused
  \<^verbatim>\<open>scanAllWorktrees\<close> returns before any resolution, and the same scan finds the changed
  file only after \<^verbatim>\<open>resetScanningState\<close>.  And the service remembers the last invalid name
  only: in one scan of three agent worktrees during which the remote's default branch goes
  from \<open>develop\<close> to \<open>trunk\<close> and back, neither existing, \<open>develop\<close> is warned about twice.
\<close>

theorem invalid_branch_pause_not_lifted_warning_repeated:
  "scanningPaused paused_tracker \<and>
   warningsShown paused_tracker = [''develop''] \<and>
   fst (getComparisonBranch (origin_head_fetched_env ''develop'') paused_tracker) =
     Some ''develop'' \<and>
   \<not> scanningPaused
     (snd (getComparisonBranch (origin_head_fetched_env ''develop'') paused_tracker)) \<and>
   scanAllWorktrees posix_basename True ''2026-01-01T00:01:00.000Z'' True
     [(agent_worktree ''worktree-agent-1'', origin_head_fetched_scan ''develop'')]
     paused_tracker = paused_tracker \<and>
   Map_keys (trackedFiles
     (scanAllWorktrees posix_basename True ''2026-01-01T00:01:00.000Z'' True
        [(agent_worktree ''worktree-agent-1'', origin_head_fetched_scan ''develop'')]
        (resetScanningState paused_tracker))) = [''src/changed.ts''] \<and>
   warningsShown
     (scanAllWorktrees posix_basename True ''2026-01-01T00:00:00.000Z'' True
        [(agent_worktree ''worktree-agent-1'', origin_head_scan ''develop''),
         (agent_worktree ''worktree-agent-2'', origin_head_scan ''trunk''),
         (agent_worktree ''worktree-agent-3'', origin_head_scan ''develop'')]
        (new_tracker NoFile)) =
     [''develop'', ''trunk'', ''develop'']"
proof -
  have paused: "scanningPaused paused_tracker" "warningsShown paused_tracker = [''develop'']"
    by (simp_all add: paused_tracker_eval)
  have valid: "fst (getComparisonBranch (origin_head_fetched_env ''develop'') paused_tracker) =
     Some ''develop''"
    "\<not> scanningPaused
       (snd (getComparisonBranch (origin_head_fetched_env ''develop'') paused_tracker))"
    by (simp_all add: getComparisonBranch_def Let_def resolved_origin_head_fetched
        branchExists_origin_head_fetched)
  have skipped: "scanAllWorktrees posix_basename True ''2026-01-01T00:01:00.000Z'' True
     [(agent_worktree ''worktree-agent-1'', origin_head_fetched_scan ''develop'')]
     paused_tracker = paused_tracker"
    using paused(1) by (rule scanAllWorktrees_paused)
  have scanned: "scanWorktree (origin_head_fetched_scan ''develop'') p wt br t =
     ([\<lparr>relativePath = ''src/changed.ts'', worktreeName = wt, branch = br,
        changeType = Modified, uncommitted = None, hasUncommittedOnTop = None\<rparr>],
      t\<lparr>scanningPaused := False, invalidBranchWarningShown := None\<rparr>)" for p wt br t
    by (simp add: scanWorktree_def getComparisonBranch_def Let_def origin_head_fetched_scan_def
        resolved_origin_head_fetched branchExists_origin_head_fetched parse_changed [simplified])
  have resumed: "Map_keys (trackedFiles
     (scanAllWorktrees posix_basename True ''2026-01-01T00:01:00.000Z'' True
        [(agent_worktree ''worktree-agent-1'', origin_head_fetched_scan ''develop'')]
        (resetScanningState paused_tracker))) = [''src/changed.ts'']"
    by (simp add: scanAllWorktrees_def scan_step_def scanned agent_worktree_def
        resetScanningState_def paused_tracker_eval Let_def saveState_def Map_keys_def
        aggregate_step_def bucket_step_def Map_get_def
        split: if_splits)
  have warned: "warningsShown
     (scanAllWorktrees posix_basename True ''2026-01-01T00:00:00.000Z'' True
        [(agent_worktree ''worktree-agent-1'', origin_head_scan ''develop''),
         (agent_worktree ''worktree-agent-2'', origin_head_scan ''trunk''),
         (agent_worktree ''worktree-agent-3'', origin_head_scan ''develop'')]
        (new_tracker NoFile)) =
     [''develop'', ''trunk'', ''develop'']"
    by (simp add: scanAllWorktrees_def scan_step_def scanWorktree_origin_head agent_worktree_def
      getComparisonBranch_def Let_def resolved_origin_head branchExists_origin_head
      new_tracker_def saveState_def getChangedPaths_def Map_keys_def)
  from paused valid skipped resumed warned show ?thesis by (intro conjI)
qed

end
